theory Spec2Isabelle
  imports Complex_Main
begin

section \<open>The search driver of \<^verbatim>\<open>autogoal/search/_base.py\<close>\<close>

text \<open>
  The embedding follows the Python source function by function.  Candidates are an opaque
  type \<open>'c\<close>; fitness values are Python numbers, taken here as \<open>real\<close> (the code only
  compares them, adds them and divides their sum by their count).  Python \<open>int\<close>s are
  \<open>int\<close>.  Exceptions are values of a sum type, and the two loops of \<open>run\<close> are recursive
  functions over an explicit loop state.
\<close>

subsection \<open>Construction: \<open>SearchAlgorithm.__init__\<close>\<close>

datatype exn = ValueError | NotImplementedError

text \<open>
  The fitness function stored in the instance: the caller's function, the substitute
  \<^verbatim>\<open>lambda x: x\<close>, or either of them wrapped by \<^verbatim>\<open>RestrictedWorkerByJoin\<close> (a class
  of \<^verbatim>\<open>autogoal.utils\<close>, kept as an uninterpreted constructor).
\<close>

datatype 'f fitness_fn =
    Given 'f
  | Identity
  | RestrictedWorkerByJoin "'f fitness_fn" int int

record ('g, 'f) SearchAlgorithm =
  generator_fn :: 'g
  fitness_fn :: "'f fitness_fn"
  pop_size :: int
  maximize :: bool
  errors :: string
  evaluation_timeout :: int
  memory_limit :: int
  early_stop :: "int option"
  search_timeout :: int

text \<open>
  \<^verbatim>\<open>__init__\<close>, lines 14 to 42.  The first argument is what \<^verbatim>\<open>self._build_sampler()\<close>
  does in the class being constructed: the base class raises \<^verbatim>\<open>NotImplementedError\<close>
  (line 147), a subclass returns a sampler.  \<^verbatim>\<open>generator_fn or self._build_sampler()\<close>
  calls it only when no generator is given.
\<close>

text \<open>Lines 39 to 42.\<close>

definition restrict :: "'f fitness_fn \<Rightarrow> int \<Rightarrow> int \<Rightarrow> 'f fitness_fn" where
  "restrict f eval_timeout mem_limit =
     (if eval_timeout > 0 \<or> mem_limit > 0
      then RestrictedWorkerByJoin f eval_timeout mem_limit else f)"

definition init ::
  "exn + 'g \<Rightarrow> 'g option \<Rightarrow> 'f option \<Rightarrow> int \<Rightarrow> bool \<Rightarrow> string \<Rightarrow> int option \<Rightarrow>
   int \<Rightarrow> int \<Rightarrow> int \<Rightarrow> exn + ('g, 'f) SearchAlgorithm" where
  "init build_sampler generator fitness pop maxi errs early eval_timeout mem_limit timeout =
     (if generator = None \<and> fitness = None then Inl ValueError
      else
        case (case generator of Some g \<Rightarrow> Inr g | None \<Rightarrow> build_sampler) of
          Inl e \<Rightarrow> Inl e
        | Inr g \<Rightarrow>
            let f = (case fitness of Some f \<Rightarrow> Given f | None \<Rightarrow> Identity) in
            Inr \<lparr> generator_fn = g,
                  fitness_fn = restrict f eval_timeout mem_limit,
                  pop_size = pop,
                  maximize = maxi,
                  errors = errs,
                  evaluation_timeout = eval_timeout,
                  memory_limit = mem_limit,
                  early_stop = early,
                  search_timeout = timeout \<rparr>)"

subsection \<open>The logger protocol\<close>

text \<open>
  \<^verbatim>\<open>evaluations\<close> is an integer or \<^verbatim>\<open>math.inf\<close> (line 54).
\<close>

datatype budget = Finite int | Unbounded

fun positive :: "budget \<Rightarrow> bool" where
  "positive (Finite e) = (e > 0)"
| "positive Unbounded = True"

fun decrement :: "budget \<Rightarrow> budget" where
  "decrement (Finite e) = Finite (e - 1)"
| "decrement Unbounded = Unbounded"

datatype failure = GeneratorFailure | EvaluationFailure

text \<open>
  One constructor per hook of class \<^verbatim>\<open>Logger\<close> (lines 156 to 179), carrying the hook's
  arguments.
\<close>

datatype 'c event =
    Begin budget
  | End "'c option" "real option"
  | Start_generation budget "real option"
  | Finish_generation "real list"
  | Sample_solution 'c
  | Eval_solution 'c real
  | Error failure "'c option"
  | Update_best 'c real "'c option" "real option"

subsection \<open>The environment of a run\<close>

text \<open>
  The generator and the fitness function are arbitrary Python callables and the clock is
  read after every evaluation.  The \<open>i\<close>-th pass through the body of the \<^verbatim>\<open>for\<close> loop
  meets the \<open>i\<close>-th entry of the environment: what the generator call does, what the
  fitness call does, and the value of \<^verbatim>\<open>time.time() - start_time\<close> read at line 118.
  A \<^verbatim>\<open>KeyboardInterrupt\<close> is not an \<^verbatim>\<open>Exception\<close>, so the handlers of lines 82 and 91
  let it through to line 140; it is taken to arrive during one of the two calls.
  Logger hooks are taken to return.
\<close>

datatype 'c generated = Generator_raises | Generator_interrupted | Generated 'c

datatype evaluated = Fitness_raises | Fitness_interrupted | Fitness real

record 'c draw =
  generated :: "'c generated"
  fitness :: evaluated
  spent_time :: real

subsection \<open>\<open>SearchAlgorithm.run\<close>\<close>

text \<open>
  How the \<^verbatim>\<open>while\<close> loop is left: the budget is used up (the loop condition, or line 114),
  line 121, line 129, a \<^verbatim>\<open>KeyboardInterrupt\<close>, or the \<^verbatim>\<open>raise\<close> of line 97.  The first
  three are \<^verbatim>\<open>stop = True; break\<close> in the source.
\<close>

datatype ending = Exhausted | TimedOut | NoImprovement | Interrupted | Reraised

datatype signal = Proceed | Leave ending

record 'c search =
  best_solution :: "'c option"
  best_fn :: "real option"
  no_improvement :: int
  evaluations :: budget
  fns :: "real list"
  calls :: "'c event list"
  drawn :: nat

definition notify :: "'c event \<Rightarrow> 'c search \<Rightarrow> 'c search" where
  "notify ev s = s\<lparr>calls := calls s @ [ev]\<rparr>"

text \<open>Lines 102 to 106.\<close>

definition improves :: "bool \<Rightarrow> real \<Rightarrow> real option \<Rightarrow> bool" where
  "improves maxi fn best =
     (case best of
        None \<Rightarrow> True
      | Some b \<Rightarrow> (fn > b \<and> maxi) \<or> (fn < b \<and> \<not> maxi))"

text \<open>Lines 102 to 110.\<close>

definition track_best :: "bool \<Rightarrow> 'c \<Rightarrow> real \<Rightarrow> 'c search \<Rightarrow> 'c search" where
  "track_best maxi solution fn s =
     (if improves maxi fn (best_fn s)
      then (notify (Update_best solution fn (best_solution s) (best_fn s)) s)
             \<lparr>best_solution := Some solution, best_fn := Some fn, no_improvement := 0\<rparr>
      else s)"

text \<open>Line 129: \<^verbatim>\<open>self._early_stop and no_improvement > self._early_stop\<close>.\<close>

definition early_stopped :: "int option \<Rightarrow> int \<Rightarrow> bool" where
  "early_stopped early streak =
     (case early of None \<Rightarrow> False | Some n \<Rightarrow> n \<noteq> 0 \<and> streak > n)"

text \<open>Line 121: \<^verbatim>\<open>self._search_timeout and spent_time > self._search_timeout\<close>.\<close>

definition timed_out :: "int \<Rightarrow> real \<Rightarrow> bool" where
  "timed_out timeout spent = (timeout \<noteq> 0 \<and> spent > real_of_int timeout)"

text \<open>Lines 99 to 132: the rest of the loop body once \<^verbatim>\<open>fn\<close> is known.\<close>

definition account ::
  "('g, 'f) SearchAlgorithm \<Rightarrow> 'c draw \<Rightarrow> 'c \<Rightarrow> real \<Rightarrow> 'c search \<Rightarrow> signal \<times> 'c search" where
  "account self d solution fn s =
     (let s1 = notify (Eval_solution solution fn) s;
          s2 = s1\<lparr>fns := fns s1 @ [fn]\<rparr>;
          s3 = track_best (maximize self) solution fn s2;
          s4 = s3\<lparr>evaluations := decrement (evaluations s3)\<rparr>
      in if \<not> positive (evaluations s4) then (Leave Exhausted, s4)
         else if timed_out (search_timeout self) (spent_time d) then (Leave TimedOut, s4)
         else if early_stopped (early_stop self) (no_improvement s4)
           then (Leave NoImprovement, s4)
         else (Proceed, s4))"

text \<open>Lines 78 to 132: one pass through the body of the \<^verbatim>\<open>for\<close> loop.\<close>

definition attempt ::
  "('g, 'f) SearchAlgorithm \<Rightarrow> 'c draw \<Rightarrow> 'c search \<Rightarrow> signal \<times> 'c search" where
  "attempt self d s =
     (case generated d of
        Generator_raises \<Rightarrow> (Proceed, notify (Error GeneratorFailure None) s)
      | Generator_interrupted \<Rightarrow> (Leave Interrupted, s)
      | Generated solution \<Rightarrow>
          let s1 = notify (Sample_solution solution) s in
          (case fitness d of
             Fitness_interrupted \<Rightarrow> (Leave Interrupted, s1)
           | Fitness_raises \<Rightarrow>
               let s2 = notify (Error EvaluationFailure (Some solution)) s1 in
               if errors self = ''raise''
               then (Leave Reraised, notify (End (best_solution s2) (best_fn s2)) s2)
               else account self d solution 0 s2
           | Fitness fn \<Rightarrow> account self d solution fn s1))"

text \<open>Lines 77 to 132: \<^verbatim>\<open>for _ in range(self._pop_size)\<close>.\<close>

fun generation ::
  "('g, 'f) SearchAlgorithm \<Rightarrow> (nat \<Rightarrow> 'c draw) \<Rightarrow> nat \<Rightarrow> 'c search \<Rightarrow> signal \<times> 'c search" where
  "generation self env 0 s = (Proceed, s)"
| "generation self env (Suc n) s =
     (case attempt self (env (drawn s)) (s\<lparr>drawn := Suc (drawn s)\<rparr>) of
        (Proceed, s') \<Rightarrow> generation self env n s'
      | (Leave e, s') \<Rightarrow> (Leave e, s'))"

text \<open>
  Lines 69 to 75: the head of the body of the \<^verbatim>\<open>while\<close> loop.  The methods
  \<^verbatim>\<open>_start_generation\<close> and \<^verbatim>\<open>_finish_generation\<close> of the class are \<^verbatim>\<open>pass\<close>.
\<close>

definition open_generation :: "'c search \<Rightarrow> 'c search" where
  "open_generation s =
     (let s1 = notify (Start_generation (evaluations s) (best_fn s)) s
      in s1\<lparr>no_improvement := no_improvement s1 + 1, fns := []\<rparr>)"

text \<open>Lines 134 and 135.\<close>

definition close_generation :: "'c search \<Rightarrow> 'c search" where
  "close_generation s = notify (Finish_generation (fns s)) s"

text \<open>
  Lines 68 to 138: the \<^verbatim>\<open>while\<close> loop.  It need not end (a generator that always fails
  never uses the budget), so the model counts generations down from a bound and is \<open>None\<close>
  when the bound is reached.  The two exceptions leave the loop at once; a \<^verbatim>\<open>break\<close> of
  the \<^verbatim>\<open>for\<close> loop comes with \<^verbatim>\<open>stop = True\<close> and leaves after line 135.
\<close>

fun generations ::
  "nat \<Rightarrow> ('g, 'f) SearchAlgorithm \<Rightarrow> (nat \<Rightarrow> 'c draw) \<Rightarrow> 'c search \<Rightarrow>
   (ending \<times> 'c search) option" where
  "generations 0 self env s = None"
| "generations (Suc k) self env s =
     (if \<not> positive (evaluations s) then Some (Exhausted, s)
      else
        case generation self env (nat (pop_size self)) (open_generation s) of
          (Leave Interrupted, s') \<Rightarrow> Some (Interrupted, s')
        | (Leave Reraised, s') \<Rightarrow> Some (Reraised, s')
        | (Leave e, s') \<Rightarrow> Some (e, close_generation s')
        | (Proceed, s') \<Rightarrow> generations k self env (close_generation s'))"

text \<open>Lines 59 to 63.\<close>

definition start :: "int option \<Rightarrow> 'c search" where
  "start evals =
     (let budget = (case evals of None \<Rightarrow> Unbounded | Some e \<Rightarrow> Finite e)
      in \<lparr> best_solution = None, best_fn = None, no_improvement = 0,
            evaluations = budget, fns = [], calls = [Begin budget], drawn = 0 \<rparr>)"

text \<open>
  \<^verbatim>\<open>run\<close>, lines 44 to 144.  The result is how the loop was left and the final state; the
  caller sees \<open>returned\<close>.
\<close>

definition run ::
  "nat \<Rightarrow> ('g, 'f) SearchAlgorithm \<Rightarrow> (nat \<Rightarrow> 'c draw) \<Rightarrow> int option \<Rightarrow>
   (ending \<times> 'c search) option" where
  "run bound self env evals =
     (case generations bound self env (start evals) of
        None \<Rightarrow> None
      | Some (Reraised, s) \<Rightarrow> Some (Reraised, s)
      | Some (e, s) \<Rightarrow> Some (e, notify (End (best_solution s) (best_fn s)) s))"

datatype 'c returned = Raises | Returns "'c option" "real option"

definition returned :: "ending \<times> 'c search \<Rightarrow> 'c returned" where
  "returned r =
     (case r of
        (Reraised, s) \<Rightarrow> Raises
      | (e, s) \<Rightarrow> Returns (best_solution s) (best_fn s))"

subsection \<open>Loggers\<close>

text \<open>
  A logger is an object whose hooks change some state and may raise.  \<open>logger ev w\<close> is the
  call of the hook named by \<open>ev\<close> with the arguments of \<open>ev\<close> in the state \<open>w\<close>; \<open>None\<close>
  is an exception leaving the hook.
\<close>

type_synonym ('c, 'w) logger = "'c event \<Rightarrow> 'w \<Rightarrow> 'w option"

text \<open>Class \<^verbatim>\<open>Logger\<close>, lines 156 to 179: every hook is \<^verbatim>\<open>pass\<close>.\<close>

definition Logger :: "('c, 'w) logger" where
  "Logger ev w = Some w"

text \<open>The hooks called one after the other, up to the first that raises.\<close>

fun observe :: "('c, 'w) logger \<Rightarrow> 'c event list \<Rightarrow> 'w \<Rightarrow> 'w option" where
  "observe l [] w = Some w"
| "observe l (ev # evs) w = (case l ev w of None \<Rightarrow> None | Some w' \<Rightarrow> observe l evs w')"

text \<open>Class \<^verbatim>\<open>MemoryLogger\<close>, lines 236 to 250.\<close>

record MemoryLogger =
  generation_best_fn :: "real list"
  generation_mean_fn :: "real list"

definition MemoryLogger_init :: MemoryLogger where
  "MemoryLogger_init = \<lparr> generation_best_fn = [0], generation_mean_fn = [] \<rparr>"

text \<open>
  \<^verbatim>\<open>statistics.mean\<close> raises on an empty sequence, and line 247 catches it.
\<close>

definition mean :: "real list \<Rightarrow> real" where
  "mean xs = (if xs = [] then 0 else sum_list xs / real (length xs))"

text \<open>
  \<^verbatim>\<open>xs[-1]\<close> raises \<^verbatim>\<open>IndexError\<close> on an empty list, as a read and as an assignment.
\<close>

definition MemoryLogger_hook :: "('c, MemoryLogger) logger" where
  "MemoryLogger_hook ev m =
     (case ev of
        Update_best new_best new_fn previous_best previous_fn \<Rightarrow>
          (if generation_best_fn m = [] then None
           else Some (m\<lparr>generation_best_fn :=
                          (generation_best_fn m)[length (generation_best_fn m) - 1 := new_fn]\<rparr>))
      | Finish_generation fs \<Rightarrow>
          (if generation_best_fn m = [] then None
           else Some (m\<lparr>generation_mean_fn := generation_mean_fn m @ [mean fs],
                        generation_best_fn :=
                          generation_best_fn m @ [last (generation_best_fn m)]\<rparr>))
      | _ \<Rightarrow> Some m)"

text \<open>
  Class \<^verbatim>\<open>MultiLogger\<close>, lines 253 to 283.  Each of the eight hooks is
  \<^verbatim>\<open>self.run(name, *args, **kwargs)\<close>, and \<^verbatim>\<open>run\<close> calls the hook of that name on the
  loggers in the order of the list; an exception leaves the loop.
\<close>

fun MultiLogger_run :: "('c, 'w) logger list \<Rightarrow> ('c, 'w) logger" where
  "MultiLogger_run [] ev w = Some w"
| "MultiLogger_run (l # ls) ev w =
     (case l ev w of None \<Rightarrow> None | Some w' \<Rightarrow> MultiLogger_run ls ev w')"

text \<open>
  A logger that only writes down, under its own name, the call it receives.
\<close>

definition recorder :: "nat \<Rightarrow> ('c, (nat \<times> 'c event) list) logger" where
  "recorder name ev w = Some (w @ [(name, ev)])"

definition seen_by :: "nat \<Rightarrow> (nat \<times> 'c event) list \<Rightarrow> 'c event list" where
  "seen_by name w = map snd (filter (\<lambda>c. fst c = name) w)"

subsection \<open>Reading the calls made on the logger\<close>

fun is_End :: "'c event \<Rightarrow> bool" where
  "is_End (End b f) = True"
| "is_End _ = False"

fun is_Sample :: "'c event \<Rightarrow> bool" where
  "is_Sample (Sample_solution c) = True"
| "is_Sample _ = False"

fun is_Eval :: "'c event \<Rightarrow> bool" where
  "is_Eval (Eval_solution c f) = True"
| "is_Eval _ = False"

fun is_Start :: "'c event \<Rightarrow> bool" where
  "is_Start (Start_generation e f) = True"
| "is_Start _ = False"

text \<open>The number of calls of the fitness function: each follows one \<^verbatim>\<open>sample_solution\<close>.\<close>

definition attempts :: "'c event list \<Rightarrow> nat" where
  "attempts evs = length (filter is_Sample evs)"

text \<open>The number of evaluations that reached line 99.\<close>

definition completed :: "'c event list \<Rightarrow> nat" where
  "completed evs = length (filter is_Eval evs)"

definition ends :: "'c event list \<Rightarrow> nat" where
  "ends evs = length (filter is_End evs)"

definition started :: "'c event list \<Rightarrow> nat" where
  "started evs = length (filter is_Start evs)"

text \<open>The fitness values that became the best, in the order of the calls of \<^verbatim>\<open>update_best\<close>.\<close>

fun bests :: "'c event list \<Rightarrow> real list" where
  "bests [] = []"
| "bests (Update_best c f pc pf # evs) = f # bests evs"
| "bests (ev # evs) = bests evs"

text \<open>The calls made on the logger by a run, and how the run ended.\<close>

definition calls_of :: "(ending \<times> 'c search) option \<Rightarrow> 'c event list" where
  "calls_of r = (case r of None \<Rightarrow> [] | Some (e, s) \<Rightarrow> calls s)"

definition ending_of :: "(ending \<times> 'c search) option \<Rightarrow> ending option" where
  "ending_of r = map_option fst r"

definition returned_of :: "(ending \<times> 'c search) option \<Rightarrow> 'c returned option" where
  "returned_of r = map_option returned r"

subsection \<open>Concrete configurations and environments\<close>

text \<open>
  An instance with the given population size, direction, error policy and early-stop
  threshold, and no search timeout; generator and fitness function are in the environment.
\<close>

definition configured :: "int \<Rightarrow> bool \<Rightarrow> string \<Rightarrow> int option \<Rightarrow> (unit, unit) SearchAlgorithm" where
  "configured pop maxi errs early =
     \<lparr> generator_fn = (), fitness_fn = Identity, pop_size = pop, maximize = maxi,
       errors = errs, evaluation_timeout = 0, memory_limit = 0, early_stop = early,
       search_timeout = 0 \<rparr>"

text \<open>The \<open>i\<close>-th candidate is \<open>i\<close>, and its fitness is the \<open>i\<close>-th entry of the list;
  beyond the list the fitness function raises.\<close>

definition scripted :: "real list \<Rightarrow> nat \<Rightarrow> nat draw" where
  "scripted fs i =
     \<lparr> generated = Generated i,
       fitness = (if i < length fs then Fitness (fs ! i) else Fitness_raises),
       spent_time = 0 \<rparr>"

text \<open>Every candidate has the same fitness.\<close>

definition plateau :: "real \<Rightarrow> nat \<Rightarrow> nat draw" where
  "plateau f i = \<lparr> generated = Generated i, fitness = Fitness f, spent_time = 0 \<rparr>"

subsection \<open>Invariants of the loops\<close>

text \<open>
  No \<^verbatim>\<open>end\<close> call has been made while the loops run, and the \<^verbatim>\<open>raise\<close> of line 97 is
  reached right after the one of line 96.
\<close>

definition ended_once :: "signal \<Rightarrow> 'c search \<Rightarrow> bool" where
  "ended_once sig s =
     (if sig = Leave Reraised
      then ends (calls s) = 1 \<and> last (calls s) = End (best_solution s) (best_fn s)
      else ends (calls s) = 0)"

text \<open>
  The fitness values passed to \<^verbatim>\<open>update_best\<close> so far improve strictly from one to the
  next, and the last of them is the current best.
\<close>

definition strictly_better :: "bool \<Rightarrow> real \<Rightarrow> real \<Rightarrow> bool" where
  "strictly_better maxi old new = (if maxi then old < new else new < old)"

definition tracked :: "bool \<Rightarrow> 'c search \<Rightarrow> bool" where
  "tracked maxi s =
     (sorted_wrt (strictly_better maxi) (bests (calls s)) \<and>
      best_fn s = (if bests (calls s) = [] then None else Some (last (bests (calls s)))))"

text \<open>
  Two generations of two candidates each: fitness 1 and 2, then 3 and a failing evaluation,
  under the policy \<^verbatim>\<open>"continue"\<close> with a budget of four evaluations.
\<close>

definition scenario2 :: "(ending \<times> nat search) option" where
  "scenario2 = run 2 (configured 2 True ''continue'' None) (scripted [1, 2, 3]) (Some 4)"

text \<open>No best is recorded exactly as long as no evaluation has reached line 99.\<close>

definition unset_until_evaluated :: "'c search \<Rightarrow> bool" where
  "unset_until_evaluated s =
     ((best_fn s = None) = (completed (calls s) = 0) \<and>
      (best_solution s = None) = (best_fn s = None))"

text \<open>
  The budget left is the budget given minus the evaluations that reached line 99: at the
  head of the \<^verbatim>\<open>while\<close> loop, in the \<^verbatim>\<open>for\<close> loop, and where the \<^verbatim>\<open>while\<close> loop is left.
\<close>

definition accounted :: "int \<Rightarrow> 'c search \<Rightarrow> bool" where
  "accounted E s =
     (evaluations s = Finite (E - int (completed (calls s))) \<and>
      attempts (calls s) = completed (calls s) \<and>
      (completed (calls s) = 0 \<or> int (completed (calls s)) \<le> E))"

definition accounting :: "int \<Rightarrow> signal \<Rightarrow> 'c search \<Rightarrow> bool" where
  "accounting E sig s =
     (evaluations s = Finite (E - int (completed (calls s))) \<and>
      (sig = Leave Interrupted \<or> sig = Leave Reraised \<or>
       attempts (calls s) = completed (calls s) \<and>
       (if sig = Leave Exhausted then int (completed (calls s)) = E
        else int (completed (calls s)) < E)))"

definition settled :: "int \<Rightarrow> ending \<Rightarrow> 'c search \<Rightarrow> bool" where
  "settled E e s =
     (evaluations s = Finite (E - int (completed (calls s))) \<and>
      (e \<noteq> Exhausted \<or>
       attempts (calls s) = nat E \<and> completed (calls s) = nat E))"

text \<open>The generator raises in the first \<open>k\<close> draws; the fitness function always raises.\<close>

definition late :: "nat \<Rightarrow> nat \<Rightarrow> nat draw" where
  "late k i =
     \<lparr> generated = (if i < k then Generator_raises else Generated i),
       fitness = Fitness_raises, spent_time = 0 \<rparr>"

text \<open>
  Before the first call of the fitness function nothing is recorded; after the
  \<^verbatim>\<open>raise\<close> of line 97 one evaluation was attempted, none completed, and \<^verbatim>\<open>end\<close> was the
  last call, with no best.
\<close>

definition pristine :: "'c search \<Rightarrow> bool" where
  "pristine s =
     (best_solution s = None \<and> best_fn s = None \<and> positive (evaluations s) \<and>
      attempts (calls s) = 0 \<and> completed (calls s) = 0 \<and> ends (calls s) = 0)"

definition failed :: "'c search \<Rightarrow> bool" where
  "failed s =
     (best_solution s = None \<and> best_fn s = None \<and>
      attempts (calls s) = 1 \<and> completed (calls s) = 0 \<and> ends (calls s) = 1 \<and>
      last (calls s) = End None None)"

text \<open>Whether a budget is more than \<open>n\<close> evaluations, and what is left after \<open>n\<close>.\<close>

fun affords :: "budget \<Rightarrow> nat \<Rightarrow> bool" where
  "affords (Finite e) n = (int n < e)"
| "affords Unbounded n = True"

fun spend :: "budget \<Rightarrow> nat \<Rightarrow> budget" where
  "spend (Finite e) n = Finite (e - int n)"
| "spend Unbounded n = Unbounded"

text \<open>
  The calls made after the first \<^verbatim>\<open>update_best\<close>, and the number of generations started
  among them: the generations that follow the first improving evaluation.
\<close>

fun after_first_update :: "'c event list \<Rightarrow> 'c event list" where
  "after_first_update [] = []"
| "after_first_update (Update_best c f pc pf # evs) = evs"
| "after_first_update (ev # evs) = after_first_update evs"

definition further_generations :: "'c event list \<Rightarrow> nat" where
  "further_generations evs = started (after_first_update evs)"

text \<open>
  The loop state on a plateau: one improvement so far, to the fitness \<open>b\<close>, with the
  streak, the budget left, the generations started since, the evaluations attempted and the
  draws made.
\<close>

definition plateaued ::
  "real \<Rightarrow> int \<Rightarrow> budget \<Rightarrow> nat \<Rightarrow> nat \<Rightarrow> nat \<Rightarrow> 'c search \<Rightarrow> bool" where
  "plateaued b streak left further tried d s =
     (best_fn s = Some b \<and> bests (calls s) = [b] \<and> no_improvement s = streak \<and>
      evaluations s = left \<and> further_generations (calls s) = further \<and>
      attempts (calls s) = tried \<and> drawn s = d)"

text \<open>
  The fitness with which a draw reaches line 99, if it does: the value the fitness function
  returns, or the 0 of line 92 when it raises and the policy is not \<^verbatim>\<open>"raise"\<close>.  A draw
  whose generator fails, or whose evaluation is interrupted or re-raised, does not reach it.
\<close>

definition score :: "string \<Rightarrow> 'c draw \<Rightarrow> real option" where
  "score errs d =
     (case generated d of
        Generated solution \<Rightarrow>
          (case fitness d of
             Fitness fn \<Rightarrow> Some fn
           | Fitness_raises \<Rightarrow> (if errs = ''raise'' then None else Some 0)
           | Fitness_interrupted \<Rightarrow> None)
      | _ \<Rightarrow> None)"

text \<open>
  An environment in which every draw reaches line 99, the first with the fitness \<open>b\<close> and
  no later one with a fitness that improves on \<open>b\<close>, and the search timeout never triggers.
\<close>

definition flat :: "('g, 'f) SearchAlgorithm \<Rightarrow> (nat \<Rightarrow> 'c draw) \<Rightarrow> real \<Rightarrow> bool" where
  "flat self env b =
     (score (errors self) (env 0) = Some b \<and>
      (\<forall>i>0. \<exists>f. score (errors self) (env i) = Some f \<and>
         \<not> improves (maximize self) f (Some b)) \<and>
      (\<forall>i. \<not> timed_out (search_timeout self) (spent_time (env i))))"

text \<open>
  The calls made after the last \<^verbatim>\<open>update_best\<close> (all of them when there is none), and the
  number of generations started among them: the generations started since the last
  improvement.
\<close>

fun is_Update :: "'c event \<Rightarrow> bool" where
  "is_Update (Update_best c f pc pf) = True"
| "is_Update _ = False"

definition after_last_update :: "'c event list \<Rightarrow> 'c event list" where
  "after_last_update evs = rev (takeWhile (\<lambda>ev. \<not> is_Update ev) (rev evs))"

definition since_improvement :: "'c event list \<Rightarrow> nat" where
  "since_improvement evs = started (after_last_update evs)"

text \<open>
  The streak is the number of generations started since the last improvement, and line 131
  is reached only with a streak that satisfies the condition of line 129.
\<close>

definition streak_counted :: "int option \<Rightarrow> signal \<Rightarrow> 'c search \<Rightarrow> bool" where
  "streak_counted early sig s =
     (no_improvement s = int (since_improvement (calls s)) \<and>
      (sig \<noteq> Leave NoImprovement \<or> early_stopped early (no_improvement s)))"

text \<open>
  What the calls made on the logger show of the best pair: the candidate and fitness of every
  \<^verbatim>\<open>eval_solution\<close>, the arguments of every \<^verbatim>\<open>update_best\<close>, and the best fitness as the
  hooks were told it over time (\<^verbatim>\<open>start_generation\<close>, the previous and the new fitness of
  \<^verbatim>\<open>update_best\<close>, \<^verbatim>\<open>end\<close>).
\<close>

fun scored :: "'c event list \<Rightarrow> ('c \<times> real) list" where
  "scored [] = []"
| "scored (Eval_solution c f # evs) = (c, f) # scored evs"
| "scored (ev # evs) = scored evs"

fun replaced :: "'c event list \<Rightarrow> ('c \<times> real \<times> 'c option \<times> real option) list" where
  "replaced [] = []"
| "replaced (Update_best c f pc pf # evs) = (c, f, pc, pf) # replaced evs"
| "replaced (ev # evs) = replaced evs"

fun reported :: "'c event list \<Rightarrow> real option list" where
  "reported [] = []"
| "reported (Start_generation left bf # evs) = bf # reported evs"
| "reported (Update_best c f pc pf # evs) = pf # Some f # reported evs"
| "reported (End bc bf # evs) = bf # reported evs"
| "reported (ev # evs) = reported evs"

text \<open>
  The update rule in the words of the specification (section 4.2), for comparison with
  \<open>track_best\<close>: the new pair replaces the old one if and only if the best fitness is absent,
  or \<open>maximize\<close> and the fitness is greater than the best fitness, or not \<open>maximize\<close> and it
  is smaller.  \<open>spec_best\<close> applies the rule to the evaluations in their order and
  \<open>spec_updates\<close> lists the replacements it makes, each with the pair it replaces.
\<close>

definition spec_improves :: "bool \<Rightarrow> ('c \<times> real) option \<Rightarrow> 'c \<times> real \<Rightarrow> bool" where
  "spec_improves maxi best new =
     (case best of
        None \<Rightarrow> True
      | Some old \<Rightarrow> (maxi \<and> snd new > snd old) \<or> (\<not> maxi \<and> snd new < snd old))"

definition spec_replace ::
  "bool \<Rightarrow> ('c \<times> real) option \<Rightarrow> 'c \<times> real \<Rightarrow> ('c \<times> real) option" where
  "spec_replace maxi best new = (if spec_improves maxi best new then Some new else best)"

definition spec_best :: "bool \<Rightarrow> ('c \<times> real) list \<Rightarrow> ('c \<times> real) option" where
  "spec_best maxi pairs = foldl (spec_replace maxi) None pairs"

fun spec_updates ::
  "bool \<Rightarrow> ('c \<times> real) option \<Rightarrow> ('c \<times> real) list \<Rightarrow>
   ('c \<times> real \<times> 'c option \<times> real option) list" where
  "spec_updates maxi best [] = []"
| "spec_updates maxi best (new # rest) =
     (if spec_improves maxi best new
      then (fst new, snd new, map_option fst best, map_option snd best) #
           spec_updates maxi (Some new) rest
      else spec_updates maxi best rest)"

text \<open>A later best fitness is not worse than an earlier one; absence comes first.\<close>

definition not_worse :: "bool \<Rightarrow> real option \<Rightarrow> real option \<Rightarrow> bool" where
  "not_worse maxi earlier later =
     (case earlier of
        None \<Rightarrow> True
      | Some x \<Rightarrow> (case later of None \<Rightarrow> False | Some y \<Rightarrow> if maxi then x \<le> y else y \<le> x))"

text \<open>The loop state agrees with the rule applied to the evaluations made so far.\<close>

definition follows_spec :: "bool \<Rightarrow> 'c search \<Rightarrow> bool" where
  "follows_spec maxi s =
     (best_solution s = map_option fst (spec_best maxi (scored (calls s))) \<and>
      best_fn s = map_option snd (spec_best maxi (scored (calls s))) \<and>
      replaced (calls s) = spec_updates maxi None (scored (calls s)) \<and>
      sorted_wrt (not_worse maxi) (reported (calls s)) \<and>
      (\<forall>x\<in>set (reported (calls s)). not_worse maxi x (best_fn s)))"

section \<open>Properties\<close>

subsection \<open>Counting calls\<close>

lemma notify_fields:
  "calls (notify ev s) = calls s @ [ev]"
  "best_solution (notify ev s) = best_solution s"
  "best_fn (notify ev s) = best_fn s"
  "no_improvement (notify ev s) = no_improvement s"
  "evaluations (notify ev s) = evaluations s"
  "fns (notify ev s) = fns s"
  "drawn (notify ev s) = drawn s"
  by (simp_all add: notify_def)

lemma attempts_append: "attempts (xs @ ys) = attempts xs + attempts ys"
  by (simp add: attempts_def)

lemma completed_append: "completed (xs @ ys) = completed xs + completed ys"
  by (simp add: completed_def)

lemma ends_append: "ends (xs @ ys) = ends xs + ends ys"
  by (simp add: ends_def)

lemma started_append: "started (xs @ ys) = started xs + started ys"
  by (simp add: started_def)

lemma bests_append: "bests (xs @ ys) = bests xs @ bests ys"
  by (induction xs rule: bests.induct) simp_all

lemma count_Nil:
  "attempts [] = 0" "completed [] = 0" "ends [] = 0" "started [] = 0"
  by (simp_all add: attempts_def completed_def ends_def started_def)

lemma count_Cons:
  "attempts (ev # evs) = (if is_Sample ev then Suc (attempts evs) else attempts evs)"
  "completed (ev # evs) = (if is_Eval ev then Suc (completed evs) else completed evs)"
  "ends (ev # evs) = (if is_End ev then Suc (ends evs) else ends evs)"
  "started (ev # evs) = (if is_Start ev then Suc (started evs) else started evs)"
  by (simp_all add: attempts_def completed_def ends_def started_def)

lemmas count_simps = count_Nil count_Cons attempts_append completed_append ends_append
  started_append bests_append

lemmas body_defs = attempt_def account_def track_best_def Let_def

subsection \<open>Rules for the two loops\<close>

text \<open>
  \<open>J\<close> holds at the head of the \<^verbatim>\<open>for\<close> loop and, with the signal, where its body is
  left; \<open>I\<close> holds at the head of the \<^verbatim>\<open>while\<close> loop; \<open>F\<close> holds where the
  \<^verbatim>\<open>while\<close> loop is left.
\<close>

lemma generation_rule:
  assumes step: "\<And>s sig s'. J Proceed s \<Longrightarrow>
      attempt self (env (drawn s)) (s\<lparr>drawn := Suc (drawn s)\<rparr>) = (sig, s') \<Longrightarrow> J sig s'"
    and "J Proceed s"
    and "generation self env n s = (sig, s')"
  shows "J sig s'"
  using assms(2,3)
proof (induction n arbitrary: s)
  case 0
  then show ?case by simp
next
  case (Suc n)
  obtain sg t where a: "attempt self (env (drawn s)) (s\<lparr>drawn := Suc (drawn s)\<rparr>) = (sg, t)"
    by (cases "attempt self (env (drawn s)) (s\<lparr>drawn := Suc (drawn s)\<rparr>)")
  have j: "J sg t" using step [OF Suc.prems(1) a] .
  show ?case
  proof (cases sg)
    case Proceed
    with Suc.prems(2) a have "generation self env n t = (sig, s')" by simp
    with Suc.IH j Proceed show ?thesis by blast
  next
    case (Leave e)
    with Suc.prems(2) a have "sig = Leave e" "s' = t" by simp_all
    with j Leave show ?thesis by simp
  qed
qed

lemma generations_rule:
  assumes entering: "\<And>s. I s \<Longrightarrow> positive (evaluations s) \<Longrightarrow> J Proceed (open_generation s)"
    and step: "\<And>s sig s'. J Proceed s \<Longrightarrow>
      attempt self (env (drawn s)) (s\<lparr>drawn := Suc (drawn s)\<rparr>) = (sig, s') \<Longrightarrow> J sig s'"
    and closing: "\<And>s. J Proceed s \<Longrightarrow> I (close_generation s)"
    and leaving: "\<And>s. I s \<Longrightarrow> \<not> positive (evaluations s) \<Longrightarrow> F Exhausted s"
    and breaking: "\<And>s e. J (Leave e) s \<Longrightarrow> e \<noteq> Interrupted \<Longrightarrow> e \<noteq> Reraised \<Longrightarrow>
      F e (close_generation s)"
    and raising: "\<And>s e. J (Leave e) s \<Longrightarrow> e = Interrupted \<or> e = Reraised \<Longrightarrow> F e s"
    and "I s"
    and "generations k self env s = Some (e, s')"
  shows "F e s'"
  using assms(7,8)
proof (induction k arbitrary: s)
  case 0
  then show ?case by simp
next
  case (Suc k)
  show ?case
  proof (cases "positive (evaluations s)")
    case False
    with Suc.prems show ?thesis using leaving by simp
  next
    case True
    obtain sg t where g: "generation self env (nat (pop_size self)) (open_generation s) = (sg, t)"
      by (cases "generation self env (nat (pop_size self)) (open_generation s)")
    have j: "J sg t"
    proof (rule generation_rule [where J = J and self = self and env = env])
      show "J Proceed (open_generation s)" using entering Suc.prems(1) True by blast
      show "generation self env (nat (pop_size self)) (open_generation s) = (sg, t)" by (rule g)
    qed (rule step)
    show ?thesis
    proof (cases sg)
      case Proceed
      with Suc.prems(2) True g have "generations k self env (close_generation t) = Some (e, s')"
        by simp
      moreover have "I (close_generation t)" using closing j Proceed by simp
      ultimately show ?thesis using Suc.IH by blast
    next
      case (Leave e')
      show ?thesis
      proof (cases "e' = Interrupted \<or> e' = Reraised")
        case True
        with Suc.prems(2) \<open>positive (evaluations s)\<close> g Leave have "e = e'" "s' = t"
          by auto
        with raising j Leave True show ?thesis by blast
      next
        case False
        with Suc.prems(2) \<open>positive (evaluations s)\<close> g Leave
        have "e = e'" "s' = close_generation t"
          by (cases e'; simp)+
        with breaking j Leave False show ?thesis by blast
      qed
    qed
  qed
qed

subsection \<open>The \<^verbatim>\<open>end\<close> hook\<close>

lemma attempt_ended_once:
  assumes "ended_once Proceed s" and "attempt self d (s\<lparr>drawn := n\<rparr>) = (sig, s')"
  shows "ended_once sig s'"
  using assms
  by (auto simp: body_defs ended_once_def notify_fields count_simps
      split: generated.splits evaluated.splits if_splits)

text \<open>
  Claim C3.  In every call of \<open>run\<close> that ends, however it ends (the budget used up, the
  search timeout, the early stop, a keyboard interrupt, or the re-raised failure of a
  fitness evaluation under the policy \<^verbatim>\<open>"raise"\<close>), the logger's \<^verbatim>\<open>end\<close> hook has been
  called exactly once, as the last call, with the best solution and best fitness of that
  moment.
\<close>

theorem end_hook_once:
  assumes "run bound self env evals = Some (e, s)"
  shows "ends (calls s) = 1 \<and> last (calls s) = End (best_solution s) (best_fn s)"
proof -
  obtain e' t where g: "generations bound self env (start evals) = Some (e', t)"
    using assms by (auto simp: run_def split: option.splits)
  have "ended_once (Leave e') t"
  proof (rule generations_rule [where I = "ended_once Proceed" and J = ended_once
        and F = "\<lambda>e. ended_once (Leave e)" and self = self and env = env])
    show "ended_once Proceed (start evals)"
      by (simp add: ended_once_def start_def count_simps Let_def)
    show "generations bound self env (start evals) = Some (e', t)"
      by (rule g)
    show "ended_once sig s'"
      if "ended_once Proceed s"
        and "attempt self (env (drawn s)) (s\<lparr>drawn := Suc (drawn s)\<rparr>) = (sig, s')"
      for s sig s'
      using that by (rule attempt_ended_once)
  qed (simp_all add: ended_once_def open_generation_def close_generation_def notify_fields
      count_simps Let_def)
  then show ?thesis
    using assms g
    by (cases e') (auto simp: run_def ended_once_def notify_fields count_simps)
qed

theorem end_hook_once_witness:
  "run 2 (configured 1 True ''raise'' None) (scripted [1, 2]) (Some 2) \<noteq> None \<and>
   ends (calls_of (run 2 (configured 1 True ''raise'' None) (scripted [1, 2]) (Some 2))) = 1"
proof -
  have some: "run 2 (configured 1 True ''raise'' None) (scripted [1, 2]) (Some 2) \<noteq> None"
    by code_simp
  then obtain e s
    where h: "run 2 (configured 1 True ''raise'' None) (scripted [1, 2]) (Some 2) = Some (e, s)"
    by auto
  from end_hook_once [OF h] have "ends (calls s) = 1" by simp
  with h some show ?thesis by (simp add: calls_of_def)
qed

subsection \<open>The best fitness over time\<close>

lemma sorted_wrt_snoc:
  assumes "\<And>x y z. P x y \<Longrightarrow> P y z \<Longrightarrow> P x z" and "xs \<noteq> []"
  shows "sorted_wrt P (xs @ [y]) = (sorted_wrt P xs \<and> P (last xs) y)"
  using assms(2)
proof (induction xs)
  case Nil
  then show ?case by simp
next
  case (Cons x xs)
  show ?case
  proof (cases "xs = []")
    case True
    then show ?thesis by simp
  next
    case False
    with Cons.IH have ih: "sorted_wrt P (xs @ [y]) = (sorted_wrt P xs \<and> P (last xs) y)"
      by simp
    have "P x y" if "sorted_wrt P (x # xs)" "P (last xs) y"
    proof -
      from that(1) False have "P x (last xs)" by simp
      with that(2) show ?thesis using assms(1) by blast
    qed
    with ih False show ?thesis by auto
  qed
qed

lemma strictly_better_trans:
  "strictly_better maxi x y \<Longrightarrow> strictly_better maxi y z \<Longrightarrow> strictly_better maxi x z"
  by (auto simp: strictly_better_def split: if_splits)

lemma improves_strictly_better:
  "improves maxi fn (Some b) = strictly_better maxi b fn"
  by (auto simp: improves_def strictly_better_def)

lemma track_best_tracked:
  assumes "tracked maxi s"
  shows "tracked maxi (track_best maxi c fn s)"
proof (cases "improves maxi fn (best_fn s)")
  case False
  with assms show ?thesis by (simp add: track_best_def)
next
  case True
  show ?thesis
  proof (cases "bests (calls s) = []")
    case True
    with assms \<open>improves maxi fn (best_fn s)\<close> show ?thesis
      by (simp add: track_best_def tracked_def notify_fields count_simps)
  next
    case False
    with assms have b: "best_fn s = Some (last (bests (calls s)))"
      and srt: "sorted_wrt (strictly_better maxi) (bests (calls s))"
      by (simp_all add: tracked_def)
    from True b have "strictly_better maxi (last (bests (calls s))) fn"
      by (simp add: improves_strictly_better)
    with srt False
    have "sorted_wrt (strictly_better maxi) (bests (calls s) @ [fn])"
      using sorted_wrt_snoc [of "strictly_better maxi" "bests (calls s)" fn]
        strictly_better_trans [of maxi] by blast
    with True show ?thesis
      by (simp add: track_best_def tracked_def notify_fields count_simps)
  qed
qed

lemma tracked_notify:
  "bests [ev] = [] \<Longrightarrow> tracked maxi (notify ev s) = tracked maxi s"
  by (simp add: tracked_def notify_fields count_simps)

lemma tracked_fields:
  "tracked maxi (s\<lparr>drawn := n\<rparr>) = tracked maxi s"
  "tracked maxi (s\<lparr>fns := fs\<rparr>) = tracked maxi s"
  "tracked maxi (s\<lparr>no_improvement := k\<rparr>) = tracked maxi s"
  "tracked maxi (s\<lparr>evaluations := b\<rparr>) = tracked maxi s"
  by (simp_all add: tracked_def)

lemma account_tracked:
  assumes "tracked (maximize self) s" and "account self d c fn s = (sig, s')"
  shows "tracked (maximize self) s'"
proof -
  have "tracked (maximize self)
          (track_best (maximize self) c fn ((notify (Eval_solution c fn) s)\<lparr>fns := fns s @ [fn]\<rparr>))"
    using assms(1) by (intro track_best_tracked) (simp add: tracked_fields tracked_notify)
  with assms(2) show ?thesis
    by (auto simp: account_def Let_def tracked_fields notify_fields split: if_splits)
qed

lemma account_tracked_imp:
  "account self d c fn s = (sig, s') \<Longrightarrow> tracked (maximize self) s \<longrightarrow> tracked (maximize self) s'"
  by (rule impI) (rule account_tracked)

lemma attempt_tracked:
  assumes "tracked (maximize self) s" and "attempt self d (s\<lparr>drawn := n\<rparr>) = (sig, s')"
  shows "tracked (maximize self) s'"
  using assms
  by (auto simp: attempt_def Let_def tracked_fields tracked_notify
      split: generated.splits evaluated.splits if_splits dest!: account_tracked_imp)

lemma generations_tracked:
  assumes "tracked (maximize self) s" and "generations k self env s = Some (e, s')"
  shows "tracked (maximize self) s'"
proof (rule generations_rule [where I = "tracked (maximize self)"
      and J = "\<lambda>sig. tracked (maximize self)" and F = "\<lambda>e. tracked (maximize self)"
      and self = self and env = env])
  show "tracked (maximize self) s" by (rule assms(1))
  show "generations k self env s = Some (e, s')" by (rule assms(2))
  show "tracked (maximize self) s'"
    if "tracked (maximize self) s"
      and "attempt self (env (drawn s)) (s\<lparr>drawn := Suc (drawn s)\<rparr>) = (sig, s')"
    for s sig s'
    using that by (rule attempt_tracked)
qed (simp_all add: open_generation_def close_generation_def Let_def tracked_fields tracked_notify)

lemma scored_append: "scored (xs @ ys) = scored xs @ scored ys"
  by (induction xs rule: scored.induct) simp_all

lemma replaced_append: "replaced (xs @ ys) = replaced xs @ replaced ys"
  by (induction xs rule: replaced.induct) simp_all

lemma reported_append: "reported (xs @ ys) = reported xs @ reported ys"
  by (induction xs rule: reported.induct) simp_all

lemma spec_updates_snoc:
  "spec_updates maxi best (ps @ [new]) =
   spec_updates maxi best ps @
     (if spec_improves maxi (foldl (spec_replace maxi) best ps) new
      then [(fst new, snd new, map_option fst (foldl (spec_replace maxi) best ps),
             map_option snd (foldl (spec_replace maxi) best ps))]
      else [])"
  by (induction ps arbitrary: best) (simp_all add: spec_replace_def)

lemma not_worse_refl: "not_worse maxi x x"
  by (simp add: not_worse_def split: option.splits)

lemma not_worse_trans: "not_worse maxi x y \<Longrightarrow> not_worse maxi y z \<Longrightarrow> not_worse maxi x z"
  by (auto simp: not_worse_def split: option.splits if_splits)

lemma improves_not_worse: "improves maxi fn best \<Longrightarrow> not_worse maxi best (Some fn)"
  by (auto simp: improves_def not_worse_def split: option.splits)

lemma improves_spec:
  "improves maxi fn (map_option snd best) = spec_improves maxi best (c, fn)"
  by (cases best) (auto simp: improves_def spec_improves_def)

lemma follows_spec_notify:
  "scored [ev] = [] \<Longrightarrow> replaced [ev] = [] \<Longrightarrow> reported [ev] = [] \<Longrightarrow>
   follows_spec maxi (notify ev s) = follows_spec maxi s"
  by (simp add: follows_spec_def notify_fields scored_append replaced_append reported_append)

lemma follows_spec_report:
  "reported [ev] = [best_fn s] \<Longrightarrow> scored [ev] = [] \<Longrightarrow> replaced [ev] = [] \<Longrightarrow>
   follows_spec maxi (notify ev s) = follows_spec maxi s"
  by (auto simp: follows_spec_def notify_fields scored_append replaced_append reported_append
      sorted_wrt_append not_worse_refl)

lemma follows_spec_End:
  "bf = best_fn s \<Longrightarrow> follows_spec maxi (notify (End bc bf) s) = follows_spec maxi s"
  by (simp add: follows_spec_report)

lemma follows_spec_Start:
  "bf = best_fn s \<Longrightarrow>
   follows_spec maxi (notify (Start_generation left bf) s) = follows_spec maxi s"
  by (simp add: follows_spec_report)

lemma follows_spec_fields:
  "follows_spec maxi (s\<lparr>drawn := n\<rparr>) = follows_spec maxi s"
  "follows_spec maxi (s\<lparr>fns := fs\<rparr>) = follows_spec maxi s"
  "follows_spec maxi (s\<lparr>no_improvement := k\<rparr>) = follows_spec maxi s"
  "follows_spec maxi (s\<lparr>evaluations := b\<rparr>) = follows_spec maxi s"
  by (auto simp: follows_spec_def)

lemma scored_follows_spec:
  assumes "follows_spec maxi s"
  shows "follows_spec maxi
           (track_best maxi c fn ((notify (Eval_solution c fn) s)\<lparr>fns := fs\<rparr>))"
proof -
  let ?best = "spec_best maxi (scored (calls s))"
  from assms have sol: "best_solution s = map_option fst ?best"
    and fit: "best_fn s = map_option snd ?best"
    and rep: "replaced (calls s) = spec_updates maxi None (scored (calls s))"
    and srt: "sorted_wrt (not_worse maxi) (reported (calls s))"
    and below: "\<forall>x\<in>set (reported (calls s)). not_worse maxi x (best_fn s)"
    unfolding follows_spec_def by blast+
  have imp: "improves maxi fn (best_fn s) = spec_improves maxi ?best (c, fn)"
    unfolding fit by (rule improves_spec)
  show ?thesis
  proof (cases "improves maxi fn (best_fn s)")
    case False
    with imp sol fit rep srt below show ?thesis
      by (simp add: follows_spec_def track_best_def notify_fields scored_append replaced_append
          reported_append spec_updates_snoc spec_best_def spec_replace_def)
  next
    case True
    then have up: "not_worse maxi (best_fn s) (Some fn)" by (rule improves_not_worse)
    have "\<forall>x\<in>set (reported (calls s)). not_worse maxi x (Some fn)"
      using below up not_worse_trans by blast
    with True imp sol fit rep srt below up show ?thesis
      by (simp add: follows_spec_def track_best_def notify_fields scored_append replaced_append
          reported_append spec_updates_snoc spec_best_def spec_replace_def sorted_wrt_append
          not_worse_refl)
  qed
qed

lemma account_follows_spec:
  assumes "follows_spec (maximize self) s" and "account self d c fn s = (sig, s')"
  shows "follows_spec (maximize self) s'"
  using scored_follows_spec [OF assms(1), of c fn "fns s @ [fn]"] assms(2)
  by (auto simp: account_def Let_def follows_spec_fields notify_fields split: if_splits)

lemma account_follows_spec_imp:
  "account self d c fn s = (sig, s') \<Longrightarrow>
   follows_spec (maximize self) s \<longrightarrow> follows_spec (maximize self) s'"
  by (rule impI) (rule account_follows_spec)

lemma attempt_follows_spec:
  assumes "follows_spec (maximize self) s" and "attempt self d (s\<lparr>drawn := n\<rparr>) = (sig, s')"
  shows "follows_spec (maximize self) s'"
  using assms
  by (auto simp: attempt_def Let_def follows_spec_fields follows_spec_notify follows_spec_End
      notify_fields
      split: generated.splits evaluated.splits if_splits dest!: account_follows_spec_imp)

lemma generations_follows_spec:
  assumes "follows_spec (maximize self) s" and "generations k self env s = Some (e, s')"
  shows "follows_spec (maximize self) s'"
proof (rule generations_rule [where I = "follows_spec (maximize self)"
      and J = "\<lambda>sig. follows_spec (maximize self)" and F = "\<lambda>e. follows_spec (maximize self)"
      and self = self and env = env])
  show "follows_spec (maximize self) s" by (rule assms(1))
  show "generations k self env s = Some (e, s')" by (rule assms(2))
  show "follows_spec (maximize self) s'"
    if "follows_spec (maximize self) s"
      and "attempt self (env (drawn s)) (s\<lparr>drawn := Suc (drawn s)\<rparr>) = (sig, s')"
    for s sig s'
    using that by (rule attempt_follows_spec)
  show "follows_spec (maximize self) (open_generation s)"
    if "follows_spec (maximize self) s" for s
    using that
    by (simp add: open_generation_def Let_def follows_spec_fields follows_spec_Start)
qed (simp_all add: close_generation_def follows_spec_notify)

lemma run_follows_spec:
  assumes "run bound self env evals = Some (e, s)"
  shows "follows_spec (maximize self) s"
proof -
  obtain e' t where g: "generations bound self env (start evals) = Some (e', t)"
    using assms by (auto simp: run_def split: option.splits)
  have "follows_spec (maximize self) (start evals)"
    by (simp add: follows_spec_def start_def Let_def spec_best_def)
  then have t: "follows_spec (maximize self) t" using g by (rule generations_follows_spec)
  show ?thesis
  proof (cases "e' = Reraised")
    case True
    with assms g t show ?thesis by (simp add: run_def)
  next
    case False
    with assms g have "s = notify (End (best_solution t) (best_fn t)) t"
      by (cases e') (simp_all add: run_def)
    with t show ?thesis by (simp add: follows_spec_End)
  qed
qed

text \<open>
  Claim C2.  In a run that ends, the best fitness as the hooks are told it over time never
  gets worse: it is non-decreasing when \<open>maximize\<close> is true and non-increasing when it is
  false, and the fitness values that became the best are strictly increasing, respectively
  strictly decreasing, the best fitness at the end being the last of them.  The best
  candidate and the best fitness are replaced together, and exactly as the rule of the
  specification says: at the end they are the pair that the rule gives when applied to the
  evaluations of the run in their order, and the calls of \<^verbatim>\<open>update_best\<close> are exactly the
  replacements the rule makes, each with the pair it replaces.  So an evaluation replaces
  the pair if and only if no best fitness is recorded yet or the new fitness is strictly
  better in the configured direction; a fitness equal to the current best changes nothing.
\<close>

theorem best_fitness_monotone:
  "(run bound self env evals = Some (e, s) \<longrightarrow>
      sorted_wrt (\<lambda>old new. if maximize self then old < new else new < old) (bests (calls s)) \<and>
      best_fn s = (if bests (calls s) = [] then None else Some (last (bests (calls s)))) \<and>
      sorted_wrt (not_worse (maximize self)) (reported (calls s)) \<and>
      best_solution s = map_option fst (spec_best (maximize self) (scored (calls s))) \<and>
      best_fn s = map_option snd (spec_best (maximize self) (scored (calls s))) \<and>
      replaced (calls s) = spec_updates (maximize self) None (scored (calls s))) \<and>
   (track_best maxi c fn t = t) = (\<not> improves maxi fn (best_fn t)) \<and>
   improves maxi fn None \<and>
   improves True fn (Some b) = (b < fn) \<and>
   improves False fn (Some b) = (fn < b) \<and>
   track_best maxi c b (t\<lparr>best_fn := Some b\<rparr>) = t\<lparr>best_fn := Some b\<rparr> \<and>
   (improves maxi fn (best_fn t) \<longrightarrow>
      best_solution (track_best maxi c fn t) = Some c \<and>
      best_fn (track_best maxi c fn t) = Some fn) \<and>
   spec_replace maxi None new = Some new \<and>
   spec_replace True (Some old) new = (if snd old < snd new then Some new else Some old) \<and>
   spec_replace False (Some old) new = (if snd new < snd old then Some new else Some old) \<and>
   not_worse maxi None later \<and>
   not_worse True (Some x) (Some y) = (x \<le> y) \<and>
   not_worse False (Some x) (Some y) = (y \<le> x)"
proof -
  have "tracked (maximize self) s \<and> follows_spec (maximize self) s"
    if r: "run bound self env evals = Some (e, s)"
  proof -
    obtain e' t where g: "generations bound self env (start evals) = Some (e', t)"
      using r by (auto simp: run_def split: option.splits)
    have "tracked (maximize self) (start evals)"
      by (simp add: tracked_def start_def Let_def)
    then have "tracked (maximize self) t" using g by (rule generations_tracked)
    with r g have "tracked (maximize self) s"
      by (cases e') (auto simp: run_def tracked_notify)
    with run_follows_spec [OF r] show ?thesis by simp
  qed
  then have first: "run bound self env evals = Some (e, s) \<longrightarrow>
      sorted_wrt (\<lambda>old new. if maximize self then old < new else new < old) (bests (calls s)) \<and>
      best_fn s = (if bests (calls s) = [] then None else Some (last (bests (calls s)))) \<and>
      sorted_wrt (not_worse (maximize self)) (reported (calls s)) \<and>
      best_solution s = map_option fst (spec_best (maximize self) (scored (calls s))) \<and>
      best_fn s = map_option snd (spec_best (maximize self) (scored (calls s))) \<and>
      replaced (calls s) = spec_updates (maximize self) None (scored (calls s))"
    unfolding tracked_def follows_spec_def strictly_better_def [abs_def] by blast
  have second: "(track_best maxi c fn t = t) = (\<not> improves maxi fn (best_fn t))"
  proof (cases "improves maxi fn (best_fn t)")
    case True
    then have "calls (track_best maxi c fn t) \<noteq> calls t"
      by (simp add: track_best_def notify_fields)
    with True show ?thesis by auto
  next
    case False
    then show ?thesis by (simp add: track_best_def)
  qed
  have rest: "improves maxi fn None \<and>
      improves True fn (Some b) = (b < fn) \<and>
      improves False fn (Some b) = (fn < b) \<and>
      track_best maxi c b (t\<lparr>best_fn := Some b\<rparr>) = t\<lparr>best_fn := Some b\<rparr> \<and>
      (improves maxi fn (best_fn t) \<longrightarrow>
        best_solution (track_best maxi c fn t) = Some c \<and>
        best_fn (track_best maxi c fn t) = Some fn) \<and>
      spec_replace maxi None new = Some new \<and>
      spec_replace True (Some old) new = (if snd old < snd new then Some new else Some old) \<and>
      spec_replace False (Some old) new = (if snd new < snd old then Some new else Some old) \<and>
      not_worse maxi None later \<and>
      not_worse True (Some x) (Some y) = (x \<le> y) \<and>
      not_worse False (Some x) (Some y) = (y \<le> x)"
    by (simp add: improves_def track_best_def notify_fields spec_replace_def spec_improves_def
        not_worse_def)
  from first second rest show ?thesis by (intro conjI) blast+
qed

theorem best_fitness_monotone_witness:
  "run 3 (configured 1 True ''raise'' None) (scripted [1, 5, 2]) (Some 3) \<noteq> None \<and>
   bests (calls_of (run 3 (configured 1 True ''raise'' None) (scripted [1, 5, 2]) (Some 3))) =
     [1, 5] \<and>
   sorted_wrt (\<lambda>old new. old < new)
     (bests (calls_of (run 3 (configured 1 True ''raise'' None) (scripted [1, 5, 2]) (Some 3)))) \<and>
   scored (calls_of (run 3 (configured 1 True ''raise'' None) (scripted [1, 5, 2]) (Some 3))) =
     [(0, 1), (1, 5), (2, 2)] \<and>
   returned_of (run 3 (configured 1 True ''raise'' None) (scripted [1, 5, 2]) (Some 3)) =
     Some (Returns (Some 1) (Some 5))"
proof -
  have some: "run 3 (configured 1 True ''raise'' None) (scripted [1, 5, 2]) (Some 3) \<noteq> None"
    by code_simp
  then obtain e s
    where h: "run 3 (configured 1 True ''raise'' None) (scripted [1, 5, 2]) (Some 3) = Some (e, s)"
    by auto
  have b: "bests (calls_of (run 3 (configured 1 True ''raise'' None) (scripted [1, 5, 2])
      (Some 3))) = [1, 5]"
    by code_simp
  have sc: "scored (calls_of (run 3 (configured 1 True ''raise'' None) (scripted [1, 5, 2])
      (Some 3))) = [(0, 1), (1, 5), (2, 2)]"
    by code_simp
  have e: "ending_of (run 3 (configured 1 True ''raise'' None) (scripted [1, 5, 2]) (Some 3)) =
      Some Exhausted"
    by code_simp
  note all = best_fitness_monotone [of 3 "configured 1 True ''raise'' None" "scripted [1, 5, 2]"
      "Some 3" e s True 0 0 "start None" 0, THEN conjunct1, THEN mp, OF h]
  have srt: "sorted_wrt (\<lambda>old new. old < new) (bests (calls s))"
    using all [THEN conjunct1] by (simp add: configured_def)
  have cs: "scored (calls s) = [(0, 1), (1, 5), (2, 2)]"
    using sc h by (simp add: calls_of_def)
  have "best_solution s = Some 1"
    using all [THEN conjunct2, THEN conjunct2, THEN conjunct2, THEN conjunct1] cs
    by (simp add: configured_def spec_best_def spec_replace_def spec_improves_def)
  moreover have "best_fn s = Some 5"
    using all [THEN conjunct2, THEN conjunct2, THEN conjunct2, THEN conjunct2, THEN conjunct1] cs
    by (simp add: configured_def spec_best_def spec_replace_def spec_improves_def)
  ultimately have "best_solution s = Some 1" "best_fn s = Some 5" by simp_all
  with e h have "returned_of (run 3 (configured 1 True ''raise'' None) (scripted [1, 5, 2])
      (Some 3)) = Some (Returns (Some 1) (Some 5))"
    by (auto simp: returned_of_def returned_def ending_of_def)
  with b sc srt h some show ?thesis by (simp add: calls_of_def)
qed

subsection \<open>Construction\<close>

text \<open>
  Claim C7 as stated fails: constructing with \<open>pop_size = 0\<close> and negative timeouts and
  memory limit raises nothing and returns an instance that holds these values.
\<close>

theorem init_accepts_empty_population:
  "init (Inl NotImplementedError) (Some ()) (Some ()) 0 True ''raise'' None (- 1) (- 1) (- 1) =
   Inr \<lparr> generator_fn = (), fitness_fn = Given (), pop_size = 0, maximize = True,
         errors = ''raise'', evaluation_timeout = - 1, memory_limit = - 1, early_stop = None,
         search_timeout = - 1 \<rparr>"
  by (simp add: init_def restrict_def)

text \<open>
  Claim C7, amended.  The only check made at construction is that \<open>generator_fn\<close> and
  \<open>fitness_fn\<close> are not both absent (that raises \<^verbatim>\<open>ValueError\<close>).  With a generator
  given, construction succeeds for every population size, evaluation timeout, memory limit
  and search timeout, below 1 or negative ones included, and the instance stores them
  as they are.
\<close>

theorem init_stores_unchecked:
  "map_sum id pop_size
     (init build_sampler (Some g) fit pop maxi errs early eval_timeout mem_limit timeout) =
     Inr pop \<and>
   map_sum id evaluation_timeout
     (init build_sampler (Some g) fit pop maxi errs early eval_timeout mem_limit timeout) =
     Inr eval_timeout \<and>
   map_sum id memory_limit
     (init build_sampler (Some g) fit pop maxi errs early eval_timeout mem_limit timeout) =
     Inr mem_limit \<and>
   map_sum id search_timeout
     (init build_sampler (Some g) fit pop maxi errs early eval_timeout mem_limit timeout) =
     Inr timeout \<and>
   init build_sampler None None pop maxi errs early eval_timeout mem_limit timeout =
     Inl ValueError"
  by (simp add: init_def Let_def)

text \<open>
  Claim C10 as stated fails: in the base class, whose \<^verbatim>\<open>_build_sampler\<close> raises
  \<^verbatim>\<open>NotImplementedError\<close>, giving only \<open>fitness_fn\<close> does not succeed.
\<close>

theorem init_fitness_only_base_class:
  "init (Inl NotImplementedError) None (Some ()) 1 True ''raise'' None 300 4294967296 3600 =
   (Inl NotImplementedError :: exn + (unit, unit) SearchAlgorithm)"
  by (simp add: init_def)

text \<open>
  Claim C10, amended.  With both \<open>generator_fn\<close> and \<open>fitness_fn\<close> absent, construction
  raises \<^verbatim>\<open>ValueError\<close> and there is no instance.  With \<open>generator_fn\<close> given it succeeds
  and keeps that generator; the fitness function is then the given one, or the identity
  when \<open>fitness_fn\<close> is absent, wrapped by \<^verbatim>\<open>RestrictedWorkerByJoin\<close> when a limit is
  positive.  With only \<open>fitness_fn\<close> given, construction does what the class's
  \<^verbatim>\<open>_build_sampler\<close> does: it raises what that raises, and succeeds with the sampler as
  generator when that returns.
\<close>

theorem init_generator_or_fitness:
  "init build_sampler None None pop maxi errs early eval_timeout mem_limit timeout =
     Inl ValueError \<and>
   map_sum id fitness_fn
     (init build_sampler (Some g) None pop maxi errs early eval_timeout mem_limit timeout) =
     Inr (restrict Identity eval_timeout mem_limit) \<and>
   map_sum id fitness_fn
     (init build_sampler (Some g) (Some f) pop maxi errs early eval_timeout mem_limit timeout) =
     Inr (restrict (Given f) eval_timeout mem_limit) \<and>
   map_sum id generator_fn
     (init build_sampler (Some g) fit pop maxi errs early eval_timeout mem_limit timeout) =
     Inr g \<and>
   map_sum id generator_fn
     (init build_sampler None (Some f) pop maxi errs early eval_timeout mem_limit timeout) =
     build_sampler \<and>
   map_sum id fitness_fn
     (init (Inr g) None (Some f) pop maxi errs early eval_timeout mem_limit timeout) =
     Inr (restrict (Given f) eval_timeout mem_limit)"
  by (cases build_sampler) (simp_all add: init_def Let_def)

subsection \<open>The composite logger and the memory logger\<close>

lemma observe_recorders:
  "observe (MultiLogger_run [recorder a, recorder b]) evs w =
   Some (w @ concat (map (\<lambda>ev. [(a, ev), (b, ev)]) evs))"
  by (induction evs arbitrary: w) (simp_all add: recorder_def)

lemma observe_recorder:
  "observe (recorder a) evs w = Some (w @ map (Pair a) evs)"
  by (induction evs arbitrary: w) (simp_all add: recorder_def)

lemma seen_by_both:
  "a \<noteq> b \<Longrightarrow> seen_by a (concat (map (\<lambda>ev. [(a, ev), (b, ev)]) evs)) = evs \<and>
     seen_by b (concat (map (\<lambda>ev. [(a, ev), (b, ev)]) evs)) = evs"
  by (induction evs) (simp_all add: seen_by_def)

text \<open>
  Claim C9.  A \<^verbatim>\<open>MultiLogger\<close> built from the list \<open>[A, B]\<close> answers every hook call by
  calling the same hook with the same arguments on \<open>A\<close> and then, in the state \<open>A\<close> left, on
  \<open>B\<close> (an exception raised by \<open>A\<close> leaves the loop).  Fed with a sequence of calls, two
  recording loggers under a \<^verbatim>\<open>MultiLogger\<close> receive each call one after the other, and
  each of them has received exactly the sequence that a single logger receives.
\<close>

theorem multilogger_dispatch:
  "MultiLogger_run [A, B] ev w = (case A ev w of None \<Rightarrow> None | Some w' \<Rightarrow> B ev w') \<and>
   observe (MultiLogger_run [recorder a, recorder b]) evs [] =
     Some (concat (map (\<lambda>ev. [(a, ev), (b, ev)]) evs)) \<and>
   observe (recorder a) evs [] = Some (map (Pair a) evs) \<and>
   (a \<noteq> b \<longrightarrow>
      seen_by a (concat (map (\<lambda>ev. [(a, ev), (b, ev)]) evs)) = evs \<and>
      seen_by b (concat (map (\<lambda>ev. [(a, ev), (b, ev)]) evs)) = evs)"
  by (simp add: observe_recorders observe_recorder seen_by_both split: option.splits)

theorem multilogger_dispatch_witness:
  "(0::nat) \<noteq> 1 \<and>
   observe (MultiLogger_run [recorder 0, recorder 1]) (calls_of scenario2) [] =
     Some (concat (map (\<lambda>ev. [(0, ev), (1, ev)]) (calls_of scenario2))) \<and>
   seen_by 0 (concat (map (\<lambda>ev. [(0, ev), (1, ev)]) (calls_of scenario2))) = calls_of scenario2 \<and>
   seen_by 1 (concat (map (\<lambda>ev. [(0, ev), (1, ev)]) (calls_of scenario2))) = calls_of scenario2"
proof -
  have distinct: "(0::nat) \<noteq> 1" by simp
  with multilogger_dispatch [of Logger Logger "Begin Unbounded" "[]" 0 1 "calls_of scenario2"]
  show ?thesis by blast
qed

lemma scenario2_calls:
  "calls_of scenario2 =
     [Begin (Finite 4),
      Start_generation (Finite 4) None,
      Sample_solution 0, Eval_solution 0 1, Update_best 0 1 None None,
      Sample_solution 1, Eval_solution 1 2, Update_best 1 2 (Some 0) (Some 1),
      Finish_generation [1, 2],
      Start_generation (Finite 2) (Some 2),
      Sample_solution 2, Eval_solution 2 3, Update_best 2 3 (Some 1) (Some 2),
      Sample_solution 3, Error EvaluationFailure (Some 3), Eval_solution 3 0,
      Finish_generation [3, 0],
      End (Some 2) (Some 3)]"
  by code_simp

text \<open>
  Claim C8 as stated fails: after the two generations the list \<open>generation_best_fn\<close> is not
  \<open>[2, 3]\<close>.
\<close>

theorem memory_logger_best_series:
  "map_option generation_best_fn
     (observe MemoryLogger_hook (calls_of scenario2) MemoryLogger_init) \<noteq> Some [2, 3]"
  by (simp add: scenario2_calls MemoryLogger_hook_def MemoryLogger_init_def)

text \<open>
  Claim C8, amended.  With population size 2, a budget of 4 and the policy
  \<^verbatim>\<open>"continue"\<close>, fitness values 1 and 2 in the first generation and 3 followed by a
  failed evaluation in the second, the \<^verbatim>\<open>MemoryLogger\<close> holds the means \<open>[1.5, 1.5]\<close> (the
  failure counts as fitness 0) and the list \<open>generation_best_fn = [2, 3, 3]\<close>: the best so
  far of each of the two generations, followed by a copy of the last value that line 250
  appends for the generation to come.  The mean of an empty sequence is recorded as 0.
\<close>

theorem memory_logger_scenario:
  "calls_of scenario2 =
     [Begin (Finite 4),
      Start_generation (Finite 4) None,
      Sample_solution 0, Eval_solution 0 1, Update_best 0 1 None None,
      Sample_solution 1, Eval_solution 1 2, Update_best 1 2 (Some 0) (Some 1),
      Finish_generation [1, 2],
      Start_generation (Finite 2) (Some 2),
      Sample_solution 2, Eval_solution 2 3, Update_best 2 3 (Some 1) (Some 2),
      Sample_solution 3, Error EvaluationFailure (Some 3), Eval_solution 3 0,
      Finish_generation [3, 0],
      End (Some 2) (Some 3)] \<and>
   observe MemoryLogger_hook (calls_of scenario2) MemoryLogger_init =
     Some \<lparr> generation_best_fn = [2, 3, 3], generation_mean_fn = [3 / 2, 3 / 2] \<rparr> \<and>
   mean [] = 0 \<and>
   MemoryLogger_hook (Finish_generation []) MemoryLogger_init =
     Some \<lparr> generation_best_fn = [0, 0], generation_mean_fn = [0] \<rparr>"
  by (simp add: scenario2_calls MemoryLogger_hook_def MemoryLogger_init_def mean_def)

subsection \<open>The best before the first evaluation\<close>

lemma attempt_unset_until_evaluated:
  assumes "unset_until_evaluated s" and "attempt self d (s\<lparr>drawn := n\<rparr>) = (sig, s')"
  shows "unset_until_evaluated s'"
  using assms
  by (auto simp: body_defs unset_until_evaluated_def notify_fields count_simps improves_def
      split: generated.splits evaluated.splits if_splits option.splits)

text \<open>
  Claim C6 as stated fails: with the policy \<^verbatim>\<open>"continue"\<close>, a budget of one evaluation
  and a fitness function that raises, the run returns the failing candidate as best
  solution with best fitness 0.
\<close>

theorem failed_evaluation_becomes_best:
  "returned_of (run 1 (configured 1 True ''continue'' None) (scripted []) (Some 1)) =
   Some (Returns (Some 0) (Some 0))"
  by code_simp

text \<open>
  Claim C6, amended.  The best fitness and the best solution are absent (\<open>None\<close>, not 0)
  exactly as long as no evaluation has reached \<^verbatim>\<open>eval_solution\<close>, and they are absent
  together.  A failed evaluation under a policy other than \<^verbatim>\<open>"raise"\<close> is such an
  evaluation, with fitness 0: when no best is recorded yet, it makes 0 the best fitness and
  the failing candidate the best solution.
\<close>

theorem best_absent_until_evaluated:
  "(run bound self env evals = Some (e, s) \<longrightarrow>
      (best_fn s = None) = (completed (calls s) = 0) \<and>
      (best_solution s = None) = (best_fn s = None)) \<and>
   (errors self \<noteq> ''raise'' \<and> generated d = Generated c \<and> fitness d = Fitness_raises \<and>
    best_fn t = None \<longrightarrow>
      best_fn (snd (attempt self d t)) = Some 0 \<and>
      best_solution (snd (attempt self d t)) = Some c)"
proof -
  have "unset_until_evaluated s" if r: "run bound self env evals = Some (e, s)"
  proof -
    obtain e' t where g: "generations bound self env (start evals) = Some (e', t)"
      using r by (auto simp: run_def split: option.splits)
    have "unset_until_evaluated t"
    proof (rule generations_rule [where I = unset_until_evaluated
          and J = "\<lambda>sig. unset_until_evaluated" and F = "\<lambda>e. unset_until_evaluated"
          and self = self and env = env])
      show "unset_until_evaluated (start evals)"
        by (simp add: unset_until_evaluated_def start_def Let_def count_simps)
      show "generations bound self env (start evals) = Some (e', t)" by (rule g)
      show "unset_until_evaluated s'"
        if "unset_until_evaluated s"
          and "attempt self (env (drawn s)) (s\<lparr>drawn := Suc (drawn s)\<rparr>) = (sig, s')"
        for s sig s'
        using that by (rule attempt_unset_until_evaluated)
    qed (simp_all add: unset_until_evaluated_def open_generation_def close_generation_def
        Let_def notify_fields count_simps)
    with r g show ?thesis
      by (cases e') (auto simp: run_def unset_until_evaluated_def notify_fields count_simps)
  qed
  then show ?thesis
    by (auto simp: unset_until_evaluated_def body_defs notify_fields improves_def
        split: if_splits)
qed

theorem best_absent_until_evaluated_witness:
  "(\<exists>e s. run 1 (configured 1 True ''continue'' None) (scripted []) (Some 1) = Some (e, s) \<and>
      (best_fn s = None) = (completed (calls s) = 0)) \<and>
   errors (configured 1 True ''continue'' None) \<noteq> ''raise'' \<and>
   generated (scripted [] 0) = Generated 0 \<and> fitness (scripted [] 0) = Fitness_raises \<and>
   best_fn (start None :: nat search) = None \<and>
   best_fn (snd (attempt (configured 1 True ''continue'' None) (scripted [] 0) (start None))) =
     Some 0"
proof -
  have "run 1 (configured 1 True ''continue'' None) (scripted []) (Some 1) \<noteq> None"
    by code_simp
  then obtain e s
    where h: "run 1 (configured 1 True ''continue'' None) (scripted []) (Some 1) = Some (e, s)"
    by auto
  have first: "(best_fn s = None) = (completed (calls s) = 0)"
    using best_absent_until_evaluated [THEN conjunct1, THEN mp, OF h] by simp
  have hyps: "errors (configured 1 True ''continue'' None) \<noteq> ''raise'' \<and>
      generated (scripted [] 0) = Generated 0 \<and> fitness (scripted [] 0) = Fitness_raises \<and>
      best_fn (start None :: nat search) = None"
    by (simp add: configured_def scripted_def start_def)
  have after: "best_fn (snd (attempt (configured 1 True ''continue'' None) (scripted [] 0)
      (start None))) = Some 0"
    using best_absent_until_evaluated [THEN conjunct2, THEN mp, OF hyps] by simp
  have ended: "\<exists>e s. run 1 (configured 1 True ''continue'' None) (scripted []) (Some 1) =
      Some (e, s) \<and> (best_fn s = None) = (completed (calls s) = 0)"
    by (rule exI [of _ e], rule exI [of _ s]) (rule conjI [OF h first])
  show ?thesis
  proof (intro conjI)
    show "\<exists>e s. run 1 (configured 1 True ''continue'' None) (scripted []) (Some 1) =
      Some (e, s) \<and> (best_fn s = None) = (completed (calls s) = 0)"
      by (rule ended)
    show "best_fn (snd (attempt (configured 1 True ''continue'' None) (scripted [] 0)
      (start None))) = Some 0"
      by (rule after)
  qed (simp_all add: configured_def scripted_def start_def)
qed

subsection \<open>The budget\<close>

lemma attempt_accounting:
  assumes "accounting E Proceed s" and "attempt self d (s\<lparr>drawn := n\<rparr>) = (sig, s')"
  shows "accounting E sig s'"
  using assms
  by (auto simp: body_defs accounting_def notify_fields count_simps
      split: generated.splits evaluated.splits if_splits)

lemma generations_settled:
  assumes "accounted E s" and "generations k self env s = Some (e, s')"
  shows "settled E e s'"
proof (rule generations_rule [where I = "accounted E" and J = "accounting E"
      and F = "settled E" and self = self and env = env])
  show "accounted E s" by (rule assms(1))
  show "generations k self env s = Some (e, s')" by (rule assms(2))
  show "accounting E sig s'"
    if "accounting E Proceed s"
      and "attempt self (env (drawn s)) (s\<lparr>drawn := Suc (drawn s)\<rparr>) = (sig, s')"
    for s sig s'
    using that by (rule attempt_accounting)
  show "accounting E Proceed (open_generation s)"
    if "accounted E s" and "positive (evaluations s)" for s
    using that
    by (auto simp: accounted_def accounting_def open_generation_def Let_def notify_fields
        count_simps)
  show "accounted E (close_generation s)" if "accounting E Proceed s" for s
    using that
    by (auto simp: accounted_def accounting_def close_generation_def notify_fields count_simps)
  show "settled E Exhausted s" if "accounted E s" and "\<not> positive (evaluations s)" for s
    using that by (auto simp: accounted_def settled_def)
  show "settled E e (close_generation s)"
    if "accounting E (Leave e) s" and "e \<noteq> Interrupted" and "e \<noteq> Reraised" for s e
    using that
    by (auto simp: accounting_def settled_def close_generation_def notify_fields count_simps
        split: if_splits)
  show "settled E e s"
    if "accounting E (Leave e) s" and "e = Interrupted \<or> e = Reraised" for s e
    using that by (auto simp: accounting_def settled_def)
qed

lemma attempt_spends:
  assumes "generated d \<noteq> Generator_raises" and "attempt self d s = (Proceed, t)"
    and "evaluations s = Finite e"
  shows "evaluations t = Finite (e - 1) \<and> 1 \<le> e - 1"
  using assms
  by (auto simp: body_defs notify_fields
      split: generated.splits evaluated.splits if_splits)

lemma generation_spends:
  assumes "\<forall>i. generated (env i) \<noteq> Generator_raises"
    and "generation self env n s = (Proceed, s')" and "evaluations s = Finite e"
  shows "evaluations s' = Finite (e - int n) \<and> (0 < n \<longrightarrow> 1 \<le> e - int n)"
  using assms(2,3)
proof (induction n arbitrary: s e)
  case 0
  then show ?case by simp
next
  case (Suc n)
  obtain sg t where a: "attempt self (env (drawn s)) (s\<lparr>drawn := Suc (drawn s)\<rparr>) = (sg, t)"
    by (cases "attempt self (env (drawn s)) (s\<lparr>drawn := Suc (drawn s)\<rparr>)")
  with Suc.prems(1) have sg: "sg = Proceed" and g: "generation self env n t = (Proceed, s')"
    by (cases sg; simp)+
  have t: "evaluations t = Finite (e - 1) \<and> 1 \<le> e - 1"
    using assms(1) a Suc.prems(2) unfolding sg
    by (intro attempt_spends [where s = "s\<lparr>drawn := Suc (drawn s)\<rparr>"]) simp_all
  from Suc.IH [OF g, of "e - 1"] t show ?case by (cases n) auto
qed

lemma generations_terminate:
  assumes "\<forall>i. generated (env i) \<noteq> Generator_raises" and "1 \<le> pop_size self"
    and "evaluations s = Finite e" and "e \<le> int k" and "0 < k"
  shows "generations k self env s \<noteq> None"
  using assms(3-5)
proof (induction k arbitrary: s e)
  case 0
  then show ?case by simp
next
  case (Suc k)
  show ?case
  proof (cases "positive (evaluations s)")
    case False
    then show ?thesis by simp
  next
    case True
    obtain sg t where g: "generation self env (nat (pop_size self)) (open_generation s) = (sg, t)"
      by (cases "generation self env (nat (pop_size self)) (open_generation s)")
    show ?thesis
    proof (cases sg)
      case (Leave x)
      with True g show ?thesis by (cases x) simp_all
    next
      case Proceed
      have "evaluations (open_generation s) = Finite e"
        using Suc.prems(1) by (simp add: open_generation_def Let_def notify_fields)
      with generation_spends [OF assms(1) g [unfolded Proceed]] assms(2)
      have t: "evaluations t = Finite (e - int (nat (pop_size self)))"
        and low: "1 \<le> e - int (nat (pop_size self))"
        by auto
      have "generations k self env (close_generation t) \<noteq> None"
      proof (rule Suc.IH)
        show "evaluations (close_generation t) = Finite (e - int (nat (pop_size self)))"
          using t by (simp add: close_generation_def notify_fields)
        show "e - int (nat (pop_size self)) \<le> int k" using Suc.prems(2) assms(2) by simp
        show "0 < k" using low Suc.prems(2) assms(2) by simp
      qed
      with True g Proceed show ?thesis by simp
    qed
  qed
qed

text \<open>
  Claim C1 as stated fails: with population size 1, a budget of 2, a generator that never
  fails, no timeout, no early stop and no interrupt, the policy \<^verbatim>\<open>"raise"\<close> and a failing
  fitness function, the run makes one evaluation attempt, not two.
\<close>

theorem fatal_error_cuts_budget:
  "ending_of (run 2 (configured 1 True ''raise'' None) (scripted []) (Some 2)) = Some Reraised \<and>
   attempts (calls_of (run 2 (configured 1 True ''raise'' None) (scripted []) (Some 2))) = 1"
  by code_simp

text \<open>
  Claim C1, amended.  In a run with the finite budget \<open>E\<close> that ends, the budget left is
  \<open>E\<close> minus the number of evaluations that reached \<^verbatim>\<open>eval_solution\<close> (successful ones,
  and failed ones under a policy other than \<^verbatim>\<open>"raise"\<close>); a generator failure does not
  change it.  If the run ends because the budget is used up, and so not by the search
  timeout, the early stop, an interrupt or the re-raised failure of an evaluation under
  the policy \<^verbatim>\<open>"raise"\<close>, then exactly \<open>E\<close> fitness evaluations were attempted and
  completed.  With a population size of at least 1, a budget of at least 1 and a generator
  that never fails, the run ends within \<open>E\<close> generations.
\<close>

theorem budget_accounting:
  "(run bound self env (Some E) = Some (e, s) \<longrightarrow>
      evaluations s = Finite (E - int (completed (calls s))) \<and>
      (e = Exhausted \<longrightarrow> attempts (calls s) = nat E \<and> completed (calls s) = nat E)) \<and>
   (1 \<le> pop_size self \<and> 1 \<le> E \<and> (\<forall>i. generated (env i) \<noteq> Generator_raises) \<and>
    nat E \<le> bound \<longrightarrow> run bound self env (Some E) \<noteq> None)"
proof (intro conjI impI)
  assume r: "run bound self env (Some E) = Some (e, s)"
  obtain e' t where g: "generations bound self env (start (Some E)) = Some (e', t)"
    using r by (auto simp: run_def split: option.splits)
  have "accounted E (start (Some E))"
    by (simp add: accounted_def start_def Let_def count_simps)
  then have "settled E e' t" using g by (rule generations_settled)
  with r g have "settled E e s"
    by (cases e') (auto simp: run_def settled_def notify_fields count_simps)
  then show "evaluations s = Finite (E - int (completed (calls s)))"
    and "e = Exhausted \<Longrightarrow> attempts (calls s) = nat E"
    and "e = Exhausted \<Longrightarrow> completed (calls s) = nat E"
    by (auto simp: settled_def)
next
  assume a: "1 \<le> pop_size self \<and> 1 \<le> E \<and> (\<forall>i. generated (env i) \<noteq> Generator_raises) \<and>
    nat E \<le> bound"
  have "generations bound self env (start (Some E)) \<noteq> None"
  proof (rule generations_terminate [where e = E])
    show "evaluations (start (Some E)) = Finite E" by (simp add: start_def Let_def)
  qed (use a in auto)
  then show "run bound self env (Some E) \<noteq> None"
    by (auto simp: run_def split: option.splits ending.splits)
qed

theorem budget_accounting_witness:
  "1 \<le> pop_size (configured 2 True ''continue'' None) \<and> (1::int) \<le> 3 \<and>
   (\<forall>i. generated (scripted [1, 2, 3] i) \<noteq> Generator_raises) \<and> nat 3 \<le> 3 \<and>
   run 3 (configured 2 True ''continue'' None) (scripted [1, 2, 3]) (Some 3) \<noteq> None \<and>
   ending_of (run 3 (configured 2 True ''continue'' None) (scripted [1, 2, 3]) (Some 3)) =
     Some Exhausted \<and>
   attempts (calls_of (run 3 (configured 2 True ''continue'' None) (scripted [1, 2, 3]) (Some 3))) =
     3"
proof -
  have hyps: "1 \<le> pop_size (configured 2 True ''continue'' None) \<and> (1::int) \<le> 3 \<and>
      (\<forall>i. generated (scripted [1, 2, 3] i) \<noteq> Generator_raises) \<and> nat 3 \<le> 3"
    by (simp add: configured_def scripted_def)
  have some: "run 3 (configured 2 True ''continue'' None) (scripted [1, 2, 3]) (Some 3) \<noteq> None"
    using budget_accounting [THEN conjunct2, THEN mp, OF hyps] .
  then obtain e s
    where h: "run 3 (configured 2 True ''continue'' None) (scripted [1, 2, 3]) (Some 3) =
      Some (e, s)"
    by auto
  have ending:
    "ending_of (run 3 (configured 2 True ''continue'' None) (scripted [1, 2, 3]) (Some 3)) =
      Some Exhausted"
    by code_simp
  with h have e: "e = Exhausted" by (simp add: ending_of_def)
  have "attempts (calls s) = nat 3"
    using budget_accounting [THEN conjunct1, THEN mp, OF h] e by blast
  with h hyps some ending show ?thesis by (simp add: calls_of_def)
qed

subsection \<open>A failing fitness function under the policy \<^verbatim>\<open>"raise"\<close>\<close>

lemma generation_first_failure:
  assumes "errors self = ''raise''"
    and "\<forall>i<k. generated (env i) = Generator_raises"
    and "generated (env k) = Generated c" and "fitness (env k) = Fitness_raises"
    and "pristine s" and "drawn s \<le> k"
  shows "(\<exists>t. generation self env n s = (Leave Reraised, t) \<and> failed t) \<or>
         (\<exists>t. generation self env n s = (Proceed, t) \<and> pristine t \<and>
              drawn t = drawn s + n \<and> drawn t \<le> k)"
  using assms(5,6)
proof (induction n arbitrary: s)
  case 0
  then show ?case by simp
next
  case (Suc n)
  show ?case
  proof (cases "drawn s = k")
    case True
    with assms(1,3,4) Suc.prems(1) show ?thesis
      by (simp add: attempt_def Let_def pristine_def failed_def notify_fields count_simps)
  next
    case False
    with Suc.prems(2) have lt: "drawn s < k" by simp
    with assms(2) have raises: "generated (env (drawn s)) = Generator_raises" by simp
    let ?t = "notify (Error GeneratorFailure None) (s\<lparr>drawn := Suc (drawn s)\<rparr>)"
    have step: "generation self env (Suc n) s = generation self env n ?t"
      using raises by (simp add: attempt_def)
    have "pristine ?t" "drawn ?t \<le> k"
      using Suc.prems(1) lt by (simp_all add: pristine_def notify_fields count_simps)
    from Suc.IH [OF this] show ?thesis
      unfolding step by (simp add: notify_fields)
  qed
qed

lemma generations_first_failure:
  assumes "errors self = ''raise''" and "1 \<le> pop_size self"
    and "\<forall>i<k. generated (env i) = Generator_raises"
    and "generated (env k) = Generated c" and "fitness (env k) = Fitness_raises"
    and "pristine s" and "drawn s \<le> k" and "k - drawn s < bound"
  shows "\<exists>t. generations bound self env s = Some (Reraised, t) \<and> failed t"
  using assms(6-8)
proof (induction bound arbitrary: s)
  case 0
  then show ?case by simp
next
  case (Suc bound)
  have pos: "positive (evaluations s)" using Suc.prems(1) by (simp add: pristine_def)
  have "pristine (open_generation s)" "drawn (open_generation s) \<le> k"
    using Suc.prems(1,2)
    by (simp_all add: pristine_def open_generation_def Let_def notify_fields count_simps)
  from generation_first_failure [OF assms(1,3,4,5) this, of "nat (pop_size self)"]
  show ?case
  proof (elim disjE exE conjE)
    fix t
    assume "generation self env (nat (pop_size self)) (open_generation s) = (Leave Reraised, t)"
      and "failed t"
    with pos show ?thesis by simp
  next
    fix t
    assume g: "generation self env (nat (pop_size self)) (open_generation s) = (Proceed, t)"
      and p: "pristine t"
      and d: "drawn t = drawn (open_generation s) + nat (pop_size self)" and le: "drawn t \<le> k"
    have "drawn (open_generation s) = drawn s"
      by (simp add: open_generation_def Let_def notify_fields)
    with d assms(2) have more: "drawn s < drawn t" by simp
    have "\<exists>u. generations bound self env (close_generation t) = Some (Reraised, u) \<and> failed u"
    proof (rule Suc.IH)
      show "pristine (close_generation t)"
        using p by (simp add: pristine_def close_generation_def notify_fields count_simps)
      show "drawn (close_generation t) \<le> k"
        using le by (simp add: close_generation_def notify_fields)
      show "k - drawn (close_generation t) < bound"
        using more le Suc.prems(3) by (simp add: close_generation_def notify_fields)
    qed
    with pos g show ?thesis by simp
  qed
qed

text \<open>
  Claim C4.  Under the policy \<^verbatim>\<open>"raise"\<close>, with a population size of at least 1 and a
  positive budget, let the first candidate that the generator produces be evaluated by a
  fitness function that fails (as it does when every fitness evaluation fails).  Then the
  run ends after exactly one evaluation attempt, none completed; the \<^verbatim>\<open>end\<close> hook is
  called exactly once, as the last call before the failure leaves \<open>run\<close>, with no best
  solution and no best fitness; and \<open>run\<close> raises instead of returning a best.
\<close>

theorem fatal_failure_ends_run:
  assumes "errors self = ''raise''" and "1 \<le> pop_size self"
    and "evals = None \<or> (\<exists>E. evals = Some E \<and> 1 \<le> E)"
    and "\<forall>i<k. generated (env i) = Generator_raises"
    and "generated (env k) = Generated c" and "fitness (env k) = Fitness_raises"
    and "k < bound"
  shows "returned_of (run bound self env evals) = Some Raises \<and>
         ending_of (run bound self env evals) = Some Reraised \<and>
         attempts (calls_of (run bound self env evals)) = 1 \<and>
         completed (calls_of (run bound self env evals)) = 0 \<and>
         ends (calls_of (run bound self env evals)) = 1 \<and>
         last (calls_of (run bound self env evals)) = End None None"
proof -
  have "pristine (start evals)"
    using assms(3) by (auto simp: pristine_def start_def Let_def count_simps)
  moreover have "drawn (start evals) \<le> k" "k - drawn (start evals) < bound"
    using assms(7) by (simp_all add: start_def Let_def)
  ultimately obtain t where "generations bound self env (start evals) = Some (Reraised, t)"
    and "failed t"
    using generations_first_failure [OF assms(1,2,4,5,6)] by blast
  then show ?thesis
    by (simp add: run_def returned_of_def returned_def ending_of_def calls_of_def failed_def)
qed

theorem fatal_failure_ends_run_witness:
  "errors (configured 2 True ''raise'' None) = ''raise'' \<and>
   1 \<le> pop_size (configured 2 True ''raise'' None) \<and>
   generated (late 3 0) = Generator_raises \<and> generated (late 3 2) = Generator_raises \<and>
   generated (late 3 3) = Generated 3 \<and> fitness (late 3 3) = Fitness_raises \<and>
   returned_of (run 4 (configured 2 True ''raise'' None) (late 3) (Some 5)) = Some Raises \<and>
   attempts (calls_of (run 4 (configured 2 True ''raise'' None) (late 3) (Some 5))) = 1 \<and>
   ends (calls_of (run 4 (configured 2 True ''raise'' None) (late 3) (Some 5))) = 1"
proof -
  have a: "errors (configured 2 True ''raise'' None) = ''raise''"
    and b: "1 \<le> pop_size (configured 2 True ''raise'' None)"
    and c: "Some 5 = None \<or> (\<exists>E. Some 5 = Some E \<and> (1::int) \<le> E)"
    and d: "\<forall>i<3. generated (late 3 i) = Generator_raises"
    and e: "generated (late 3 3) = Generated 3"
    and f: "fitness (late 3 3) = Fitness_raises"
    and g: "(3::nat) < 4"
    by (simp_all add: configured_def late_def)
  have d0: "generated (late 3 0) = Generator_raises"
    and d2: "generated (late 3 2) = Generator_raises"
    by (simp_all add: late_def)
  from fatal_failure_ends_run [OF a b c d e f g] a b d0 d2 e f show ?thesis by blast
qed

subsection \<open>The early stop\<close>

lemma after_first_update_append:
  "bests xs \<noteq> [] \<Longrightarrow> after_first_update (xs @ ys) = after_first_update xs @ ys"
  by (induction xs rule: after_first_update.induct) simp_all

lemma further_generations_append:
  "bests xs \<noteq> [] \<Longrightarrow> further_generations (xs @ ys) = further_generations xs + started ys"
  by (simp add: further_generations_def after_first_update_append count_simps)

lemma affords_step:
  "affords left (Suc n) \<Longrightarrow> positive (decrement left) \<and> affords (decrement left) n"
  by (cases left) simp_all

lemma spend_step: "spend (decrement left) n = spend left (Suc n)"
  by (cases left) simp_all

lemma spend_0: "spend left 0 = left"
  by (cases left) simp_all

lemma affords_less: "affords left n \<Longrightarrow> m \<le> n \<Longrightarrow> affords left m"
  by (cases left) simp_all

lemma affords_positive: "affords left n \<Longrightarrow> positive left"
  by (cases left) simp_all

lemma affords_spend: "affords left (m + n) \<Longrightarrow> affords (spend left m) n"
  by (cases left) simp_all

lemma attempt_plateaued:
  assumes "flat self env b" and "early_stop self = Some N"
    and "plateaued b streak left further tried d s" and "0 < d" and "affords left (Suc 0)"
  shows "\<exists>t. attempt self (env d) (s\<lparr>drawn := Suc d\<rparr>) =
           (if N \<noteq> 0 \<and> N < streak then Leave NoImprovement else Proceed, t) \<and>
         plateaued b streak (decrement left) further (Suc tried) (Suc d) t"
proof -
  from assms(1,4) obtain f where f: "score (errors self) (env d) = Some f"
    and no: "\<not> improves (maximize self) f (Some b)"
    and t: "\<not> timed_out (search_timeout self) (spent_time (env d))"
    unfolding flat_def by blast
  from affords_step [OF assms(5)] have pos: "positive (decrement left)" by simp
  from assms(3) have ne: "bests (calls s) \<noteq> []" by (simp add: plateaued_def)
  show ?thesis
    using assms(2,3) f no t pos ne
    by (auto simp: score_def attempt_def account_def track_best_def Let_def plateaued_def
        notify_fields count_simps early_stopped_def further_generations_append
        split: generated.splits evaluated.splits if_splits)
qed

lemma generation_plateaued:
  assumes "flat self env b" and "early_stop self = Some N"
    and "plateaued b streak left further tried d s" and "0 < d" and "affords left n"
    and "streak \<le> N"
  shows "\<exists>t. generation self env n s = (Proceed, t) \<and>
             plateaued b streak (spend left n) further (tried + n) (d + n) t"
  using assms(3-5)
proof (induction n arbitrary: s left tried d)
  case 0
  then show ?case by (simp add: spend_0)
next
  case (Suc n)
  have d: "drawn s = d" using Suc.prems(1) by (simp add: plateaued_def)
  from affords_less [OF Suc.prems(3), of "Suc 0"] have one: "affords left (Suc 0)" by simp
  from attempt_plateaued [OF assms(1,2) Suc.prems(1,2) one] assms(6)
  obtain t where a: "attempt self (env d) (s\<lparr>drawn := Suc d\<rparr>) = (Proceed, t)"
    and p: "plateaued b streak (decrement left) further (Suc tried) (Suc d) t"
    by auto
  from affords_step [OF Suc.prems(3)] have "affords (decrement left) n" by simp
  from Suc.IH [OF p _ this]
  obtain u where "generation self env n t = (Proceed, u)"
    and "plateaued b streak (spend (decrement left) n) further (Suc tried + n) (Suc d + n) u"
    by auto
  with a d show ?case by (simp add: spend_step)
qed

lemma generation_stops:
  assumes "flat self env b" and "early_stop self = Some N"
    and "plateaued b streak left further tried d s" and "0 < d" and "affords left (Suc 0)"
    and "N \<noteq> 0" and "N < streak"
  shows "\<exists>t. generation self env (Suc n) s = (Leave NoImprovement, t) \<and>
             plateaued b streak (decrement left) further (Suc tried) (Suc d) t"
proof -
  have d: "drawn s = d" using assms(3) by (simp add: plateaued_def)
  from attempt_plateaued [OF assms(1-5)] assms(6,7)
  obtain t where "attempt self (env d) (s\<lparr>drawn := Suc d\<rparr>) = (Leave NoImprovement, t)"
    and "plateaued b streak (decrement left) further (Suc tried) (Suc d) t"
    by auto
  with d show ?thesis by simp
qed

text \<open>The while loop on the plateau: \<open>m\<close> full generations, then the one that stops.\<close>

lemma generations_plateaued:
  assumes "flat self env b" and "early_stop self = Some N" and "1 \<le> N"
    and "1 \<le> pop_size self"
    and "plateaued b (N - int m) left further tried d s" and "0 < d"
    and "affords left (nat (pop_size self) * m + 1)" and "m < k"
  shows "\<exists>t. generations k self env s = Some (NoImprovement, t) \<and>
             best_fn t = Some b \<and> bests (calls t) = [b] \<and>
             further_generations (calls t) = further + m + 1 \<and>
             attempts (calls t) = tried + nat (pop_size self) * m + 1"
  using assms(5-8)
proof (induction m arbitrary: s left further tried d k)
  case 0
  obtain p where p: "nat (pop_size self) = Suc p" using assms(4) by (cases "nat (pop_size self)") auto
  obtain k' where k: "k = Suc k'" using "0.prems"(4) by (cases k) auto
  have pos: "positive (evaluations s)"
    using "0.prems"(1,3) by (auto simp: plateaued_def intro: affords_positive)
  have o: "plateaued b (N + 1) left (Suc further) tried d (open_generation s)"
    using "0.prems"(1)
    by (simp add: plateaued_def open_generation_def Let_def notify_fields count_simps
        further_generations_append)
  from generation_stops [OF assms(1,2) o "0.prems"(2), of p] "0.prems"(3) assms(3)
  obtain t where g: "generation self env (Suc p) (open_generation s) = (Leave NoImprovement, t)"
    and t: "plateaued b (N + 1) (decrement left) (Suc further) (Suc tried) (Suc d) t"
    by auto
  from t have "plateaued b (N + 1) (decrement left) (Suc further) (Suc tried) (Suc d)
      (close_generation t)"
    by (simp add: plateaued_def close_generation_def notify_fields count_simps
        further_generations_append)
  with g pos p k show ?case by (simp add: plateaued_def)
next
  case (Suc m)
  let ?p = "nat (pop_size self)"
  obtain k' where k: "k = Suc k'" and k': "m < k'" using Suc.prems(4) by (cases k) auto
  have pos: "positive (evaluations s)"
    using Suc.prems(1,3) by (auto simp: plateaued_def intro: affords_positive)
  have o: "plateaued b (N - int m) left (Suc further) tried d (open_generation s)"
    using Suc.prems(1)
    by (simp add: plateaued_def open_generation_def Let_def notify_fields count_simps
        further_generations_append)
  have room: "affords left ?p"
    using Suc.prems(3) by (rule affords_less) simp
  from generation_plateaued [OF assms(1,2) o Suc.prems(2) room]
  obtain t where g: "generation self env ?p (open_generation s) = (Proceed, t)"
    and t: "plateaued b (N - int m) (spend left ?p) (Suc further) (tried + ?p) (d + ?p) t"
    by auto
  from t have c: "plateaued b (N - int m) (spend left ?p) (Suc further) (tried + ?p) (d + ?p)
      (close_generation t)"
    by (simp add: plateaued_def close_generation_def notify_fields count_simps
        further_generations_append)
  have "affords left (?p + (?p * m + 1))" using Suc.prems(3) by (simp add: algebra_simps)
  then have rest: "affords (spend left ?p) (?p * m + 1)" by (rule affords_spend)
  from Suc.IH [OF c _ rest k'] Suc.prems(2)
  obtain u where "generations k' self env (close_generation t) = Some (NoImprovement, u)"
    and "best_fn u = Some b" and "bests (calls u) = [b]"
    and "further_generations (calls u) = Suc further + m + 1"
    and "attempts (calls u) = tried + ?p + ?p * m + 1"
    by auto
  with g pos k show ?case by (simp add: algebra_simps)
qed


text \<open>
  Claim C5 as stated fails: with the threshold 1, population size 1 and a constant fitness,
  the first evaluation is the only improvement, and two further generations are started
  before the run stops, not one.
\<close>

theorem early_stop_one_generation_late:
  "early_stop (configured 1 True ''raise'' (Some 1)) = Some 1 \<and>
   ending_of (run 5 (configured 1 True ''raise'' (Some 1)) (plateau 1) None) =
     Some NoImprovement \<and>
   bests (calls_of (run 5 (configured 1 True ''raise'' (Some 1)) (plateau 1) None)) = [1] \<and>
   further_generations (calls_of (run 5 (configured 1 True ''raise'' (Some 1)) (plateau 1) None)) =
     2"
  by code_simp

lemma started_rev: "started (rev evs) = started evs"
  by (simp add: started_def flip: rev_filter)

lemma since_improvement_append:
  "since_improvement (xs @ ys) =
   (if \<forall>ev\<in>set ys. \<not> is_Update ev then since_improvement xs + started ys
    else since_improvement ys)"
proof (cases "\<forall>ev\<in>set ys. \<not> is_Update ev")
  case True
  then have "takeWhile (\<lambda>ev. \<not> is_Update ev) (rev ys @ rev xs) =
      rev ys @ takeWhile (\<lambda>ev. \<not> is_Update ev) (rev xs)"
    by (intro takeWhile_append2) simp
  with True show ?thesis
    by (simp add: since_improvement_def after_last_update_def count_simps started_rev)
next
  case False
  then obtain ev where "ev \<in> set (rev ys)" and "\<not> \<not> is_Update ev" by auto
  then have "takeWhile (\<lambda>ev. \<not> is_Update ev) (rev ys @ rev xs) =
      takeWhile (\<lambda>ev. \<not> is_Update ev) (rev ys)"
    by (rule takeWhile_append1)
  with False show ?thesis
    by (auto simp: since_improvement_def after_last_update_def)
qed

lemma since_improvement_Nil: "since_improvement [] = 0"
  by (simp add: since_improvement_def after_last_update_def count_simps)

lemma since_improvement_single:
  "since_improvement [ev] = (if is_Start ev then 1 else 0)"
  by (cases ev) (simp_all add: since_improvement_def after_last_update_def count_simps)

lemma since_improvement_Cons:
  "since_improvement (ev # evs) =
   (if \<forall>x\<in>set evs. \<not> is_Update x then (if is_Start ev then 1 else 0) + started evs
    else since_improvement evs)"
  using since_improvement_append [of "[ev]" evs] by (simp add: since_improvement_single)

lemma attempt_streak_counted:
  assumes "streak_counted (early_stop self) Proceed s"
    and "attempt self d (s\<lparr>drawn := n\<rparr>) = (sig, s')"
  shows "streak_counted (early_stop self) sig s'"
  using assms
  by (auto simp: body_defs streak_counted_def notify_fields since_improvement_append
      since_improvement_Cons since_improvement_Nil count_simps
      split: generated.splits evaluated.splits if_splits)

lemma run_streak_counted:
  assumes "run bound self env evals = Some (e, s)"
  shows "streak_counted (early_stop self) (Leave e) s"
proof -
  obtain e' t where g: "generations bound self env (start evals) = Some (e', t)"
    using assms by (auto simp: run_def split: option.splits)
  have "streak_counted (early_stop self) (Leave e') t"
  proof (rule generations_rule [where I = "streak_counted (early_stop self) Proceed"
        and J = "streak_counted (early_stop self)"
        and F = "\<lambda>e. streak_counted (early_stop self) (Leave e)" and self = self and env = env])
    show "streak_counted (early_stop self) Proceed (start evals)"
      by (simp add: streak_counted_def start_def Let_def since_improvement_single)
    show "generations bound self env (start evals) = Some (e', t)" by (rule g)
    show "streak_counted (early_stop self) sig s'"
      if "streak_counted (early_stop self) Proceed s"
        and "attempt self (env (drawn s)) (s\<lparr>drawn := Suc (drawn s)\<rparr>) = (sig, s')"
      for s sig s'
      using that by (rule attempt_streak_counted)
  qed (auto simp: streak_counted_def open_generation_def close_generation_def Let_def
      notify_fields since_improvement_append count_simps)
  with assms g show ?thesis
    by (cases e')
      (auto simp: run_def streak_counted_def notify_fields since_improvement_append count_simps)
qed

lemma early_stop_on_plateau:
  assumes "early_stop self = Some N" and "1 \<le> N" and "1 \<le> pop_size self"
    and "flat self env b"
    and "evals = None \<or> (\<exists>E. evals = Some E \<and> int (nat (pop_size self) * (nat N + 1) + 1) < E)"
    and "nat N + 2 \<le> bound"
  shows "ending_of (run bound self env evals) = Some NoImprovement \<and>
         bests (calls_of (run bound self env evals)) = [b] \<and>
         further_generations (calls_of (run bound self env evals)) = nat N + 1 \<and>
         attempts (calls_of (run bound self env evals)) =
           nat (pop_size self) * (nat N + 1) + 1"
proof -
  let ?p = "nat (pop_size self)"
  let ?left = "evaluations (start evals :: 'c search)"
  note flat = assms(4)
  obtain p where p: "?p = Suc p" using assms(3) by (cases ?p) auto
  obtain k where bound: "bound = Suc k" and k: "nat N < k"
    using assms(6) by (cases bound) auto
  have room: "affords ?left (?p * (nat N + 1) + 1)"
    using assms(5) by (auto simp: start_def Let_def)
  then have pos: "positive ?left" by (rule affords_positive)
  have two: "affords ?left (Suc (Suc 0))"
    using room by (rule affords_less) (simp add: p)
  from affords_step [OF two] have pos1: "positive (decrement ?left)" by simp
  have sc: "score (errors self) (env 0) = Some b" using flat by (simp add: flat_def)
  have t0: "\<not> timed_out (search_timeout self) (spent_time (env 0))"
    using flat by (simp add: flat_def)
  let ?s1 = "(open_generation (start evals :: 'c search))\<lparr>drawn := Suc 0\<rparr>"
  have "\<exists>t. attempt self (env 0) ?s1 = (Proceed, t) \<and>
      plateaued b 0 (decrement ?left) 0 (Suc 0) (Suc 0) t"
    using sc t0 pos1 assms(1,2)
    by (auto simp: score_def attempt_def account_def track_best_def Let_def plateaued_def
        notify_fields count_simps early_stopped_def open_generation_def start_def improves_def
        further_generations_def
        split: generated.splits evaluated.splits if_splits)
  then obtain t where a: "attempt self (env 0) ?s1 = (Proceed, t)"
    and t: "plateaued b 0 (decrement ?left) 0 (Suc 0) (Suc 0) t"
    by blast
  have "affords (decrement ?left) p"
  proof -
    have "affords ?left (Suc p)" using room by (rule affords_less) (simp add: p)
    from affords_step [OF this] show ?thesis by simp
  qed
  from generation_plateaued [OF flat assms(1) t _ this] assms(2)
  obtain u where g: "generation self env p t = (Proceed, u)"
    and u: "plateaued b 0 (spend (decrement ?left) p) 0 (Suc 0 + p) (Suc 0 + p) u"
    by auto
  have first: "generation self env ?p (open_generation (start evals)) = (Proceed, u)"
    using a g by (simp add: p open_generation_def start_def Let_def notify_fields)
  have c': "plateaued b (N - int (nat N)) (spend ?left ?p) 0 ?p ?p (close_generation u)"
    using u assms(2)
    by (simp add: plateaued_def close_generation_def notify_fields count_simps
        further_generations_append p spend_step)
  have "affords ?left (?p + (?p * nat N + 1))" using room by (simp add: algebra_simps)
  then have rest: "affords (spend ?left ?p) (?p * nat N + 1)" by (rule affords_spend)
  from generations_plateaued [OF flat assms(1,2,3) c' _ rest k]
  obtain v where v: "generations k self env (close_generation u) = Some (NoImprovement, v)"
    and "best_fn v = Some b" and "bests (calls v) = [b]"
    and "further_generations (calls v) = 0 + nat N + 1"
    and "attempts (calls v) = ?p + ?p * nat N + 1"
    by (auto simp: p)
  moreover have "generations bound self env (start evals) = Some (NoImprovement, v)"
    using pos first v by (simp add: bound)
  ultimately show ?thesis
    by (simp add: run_def ending_of_def calls_of_def notify_fields count_simps
        further_generations_append algebra_simps)
qed

text \<open>
  Claim C5, amended.  In every run the streak is the number of generations started since
  the last improvement: it grows by 1 at the head of each generation and goes back to 0
  only on an improvement.  The stop condition is that the threshold \<open>N\<close> is not 0 and the
  streak is greater than \<open>N\<close>, so a run that ends by the early stop has started more than
  \<open>N\<close> generations since the last improvement, whatever the generator and the fitness
  function do; a threshold of 0, like no threshold, never stops the run.  Let the
  threshold be \<open>N \<ge> 1\<close> and the population size \<open>p \<ge> 1\<close>; let every draw reach
  \<^verbatim>\<open>eval_solution\<close> (the generator never fails, and no evaluation is interrupted or fails
  under the policy \<^verbatim>\<open>"raise"\<close>), the first evaluation being the only one that improves the
  best; let the search timeout never trigger and the budget be unbounded or more than
  \<open>p * (N + 1) + 1\<close>.  Then the run ends by the early stop, and exactly \<open>N + 1\<close> generations
  are started after the improving evaluation: the first \<open>N\<close> of them run all their \<open>p\<close>
  evaluations, and the run stops in the next one right after its first evaluation, so
  that \<open>p * (N + 1) + 1\<close> evaluations are attempted in all.
\<close>

theorem early_stop_after_threshold:
  "(run bound self env evals = Some (e, s) \<longrightarrow>
      no_improvement s = int (since_improvement (calls s)) \<and>
      (e = NoImprovement \<longrightarrow>
         early_stopped (early_stop self) (int (since_improvement (calls s))))) \<and>
   (early_stop self = Some N \<and> 1 \<le> N \<and> 1 \<le> pop_size self \<and>
    score (errors self) (env 0) = Some b \<and>
    (\<forall>i>0. \<exists>f. score (errors self) (env i) = Some f \<and>
       \<not> improves (maximize self) f (Some b)) \<and>
    (\<forall>i. \<not> timed_out (search_timeout self) (spent_time (env i))) \<and>
    (evals = None \<or>
     (\<exists>E. evals = Some E \<and> int (nat (pop_size self) * (nat N + 1) + 1) < E)) \<and>
    nat N + 2 \<le> bound \<longrightarrow>
      ending_of (run bound self env evals) = Some NoImprovement \<and>
      bests (calls_of (run bound self env evals)) = [b] \<and>
      further_generations (calls_of (run bound self env evals)) = nat N + 1 \<and>
      attempts (calls_of (run bound self env evals)) =
        nat (pop_size self) * (nat N + 1) + 1) \<and>
   early_stopped (Some N) streak = (N \<noteq> 0 \<and> N < streak) \<and>
   \<not> early_stopped (Some 0) streak \<and>
   \<not> early_stopped None streak \<and>
   no_improvement (open_generation t) = no_improvement t + 1 \<and>
   (improves maxi fn (best_fn t) \<longrightarrow> no_improvement (track_best maxi c fn t) = 0) \<and>
   (\<not> improves maxi fn (best_fn t) \<longrightarrow>
      no_improvement (track_best maxi c fn t) = no_improvement t)"
proof (intro conjI impI)
  assume r: "run bound self env evals = Some (e, s)"
  from run_streak_counted [OF r]
  show "no_improvement s = int (since_improvement (calls s))"
    by (auto simp: streak_counted_def)
  assume "e = NoImprovement"
  with run_streak_counted [OF r]
  show "early_stopped (early_stop self) (int (since_improvement (calls s)))"
    by (auto simp: streak_counted_def)
next
  assume h: "early_stop self = Some N \<and> 1 \<le> N \<and> 1 \<le> pop_size self \<and>
    score (errors self) (env 0) = Some b \<and>
    (\<forall>i>0. \<exists>f. score (errors self) (env i) = Some f \<and>
       \<not> improves (maximize self) f (Some b)) \<and>
    (\<forall>i. \<not> timed_out (search_timeout self) (spent_time (env i))) \<and>
    (evals = None \<or>
     (\<exists>E. evals = Some E \<and> int (nat (pop_size self) * (nat N + 1) + 1) < E)) \<and>
    nat N + 2 \<le> bound"
  then have "flat self env b" by (simp add: flat_def)
  from early_stop_on_plateau [OF _ _ _ this, of N evals bound] h
  show "ending_of (run bound self env evals) = Some NoImprovement"
    and "bests (calls_of (run bound self env evals)) = [b]"
    and "further_generations (calls_of (run bound self env evals)) = nat N + 1"
    and "attempts (calls_of (run bound self env evals)) =
      nat (pop_size self) * (nat N + 1) + 1"
    by blast+
qed (simp_all add: early_stopped_def open_generation_def Let_def notify_fields track_best_def)

theorem early_stop_after_threshold_witness:
  "early_stop (configured 2 True ''continue'' (Some 2)) = Some 2 \<and>
   1 \<le> pop_size (configured 2 True ''continue'' (Some 2)) \<and>
   score (errors (configured 2 True ''continue'' (Some 2))) (scripted [1, 1] 0) = Some 1 \<and>
   score (errors (configured 2 True ''continue'' (Some 2))) (scripted [1, 1] 1) = Some 1 \<and>
   score (errors (configured 2 True ''continue'' (Some 2))) (scripted [1, 1] 2) = Some 0 \<and>
   improves (maximize (configured 2 True ''continue'' (Some 2))) 0 (Some 1) = False \<and>
   ending_of (run 4 (configured 2 True ''continue'' (Some 2)) (scripted [1, 1]) None) =
     Some NoImprovement \<and>
   further_generations
     (calls_of (run 4 (configured 2 True ''continue'' (Some 2)) (scripted [1, 1]) None)) = 3 \<and>
   attempts (calls_of (run 4 (configured 2 True ''continue'' (Some 2)) (scripted [1, 1]) None)) =
     7 \<and>
   since_improvement
     (calls_of (run 4 (configured 2 True ''continue'' (Some 2)) (scripted [1, 1]) None)) = 3"
proof -
  let ?self = "configured 2 True ''continue'' (Some 2)"
  have hyps: "early_stop ?self = Some 2 \<and> (1::int) \<le> 2 \<and> 1 \<le> pop_size ?self \<and>
    score (errors ?self) (scripted [1, 1] 0) = Some 1 \<and>
    (\<forall>i>0. \<exists>f. score (errors ?self) (scripted [1, 1] i) = Some f \<and>
       \<not> improves (maximize ?self) f (Some 1)) \<and>
    (\<forall>i. \<not> timed_out (search_timeout ?self) (spent_time (scripted [1, 1] i))) \<and>
    (None = None \<or>
     (\<exists>E. None = Some E \<and> int (nat (pop_size ?self) * (nat 2 + 1) + 1) < E)) \<and>
    nat 2 + 2 \<le> 4"
    by (auto simp: configured_def scripted_def score_def improves_def timed_out_def nth_Cons')
  note total = early_stop_after_threshold [of 4 ?self "scripted [1, 1]" None _ _ 2 1,
      THEN conjunct2, THEN conjunct1, THEN mp, OF hyps]
  have ended: "ending_of (run 4 ?self (scripted [1, 1]) None) = Some NoImprovement"
    using total by blast
  have further: "further_generations (calls_of (run 4 ?self (scripted [1, 1]) None)) = 3"
    using total by (simp add: configured_def)
  have tried: "attempts (calls_of (run 4 ?self (scripted [1, 1]) None)) = 7"
    using total by (simp add: configured_def)
  from ended obtain e s where h: "run 4 ?self (scripted [1, 1]) None = Some (e, s)"
    and e: "e = NoImprovement"
    by (auto simp: ending_of_def)
  have "early_stopped (early_stop ?self) (int (since_improvement (calls s)))"
    using early_stop_after_threshold [of 4 ?self "scripted [1, 1]" None e s,
        THEN conjunct1, THEN mp, OF h, THEN conjunct2, THEN mp, OF e] .
  moreover have "since_improvement (calls_of (run 4 ?self (scripted [1, 1]) None)) = 3"
    by code_simp
  moreover have "score (errors ?self) (scripted [1, 1] 0) = Some 1"
    and "score (errors ?self) (scripted [1, 1] 1) = Some 1"
    and "score (errors ?self) (scripted [1, 1] 2) = Some 0"
    and "improves (maximize ?self) 0 (Some 1) = False"
    and "early_stop ?self = Some 2" and "1 \<le> pop_size ?self"
    by (simp_all add: configured_def scripted_def score_def improves_def)
  ultimately show ?thesis using ended further tried by blast
qed

end
